theory Spec2Isabelle
  imports Main "HOL-Library.Multiset"
begin

section \<open>Random under-sampling: the model of \<open>RandomUnderSampler._sample\<close>\<close>

text \<open>
  The theory embeds \<^verbatim>\<open>RandomUnderSampler._sample\<close> of
  \<^verbatim>\<open>imblearn/under_sampling/prototype_selection/random_under_sampler.py\<close>.
  Arrays are lists, the label type is any linear order (\<^verbatim>\<open>np.unique\<close> sorts), the
  rows of the feature matrix are of an arbitrary type (a dense row and a sparse row are
  two such types), sample counts are natural numbers, and every exception the routine can
  meet is a value of the type \<open>error\<close>.
\<close>

subsection \<open>Exceptions\<close>

datatype error =
    ValueError_seed
      \<comment> \<open>numpy: the integer seed is outside \<open>[0, 2^32)\<close>\<close>
  | ValueError_empty
      \<comment> \<open>numpy \<^verbatim>\<open>choice\<close>: the population is empty\<close>
  | ValueError_larger_sample
      \<comment> \<open>numpy \<^verbatim>\<open>choice\<close>: "Cannot take a larger sample than population when
          'replace=False'"\<close>
  | IndexError
      \<comment> \<open>an index array reaches outside the indexed array\<close>

subsection \<open>The numpy and scikit-learn operations the routine calls\<close>

text \<open>
  The pseudo-random generator is not part of the repository. It is a parameter of the
  model: a type \<open>'g\<close> of generator states with the two operations the routine uses,
  \<^verbatim>\<open>RandomState(seed)\<close> and \<^verbatim>\<open>RandomState.choice(a, size, replace)\<close>; the latter
  returns the drawn values with the advanced generator state.
\<close>

record 'g numpy_random =
  RandomState :: "int \<Rightarrow> error + 'g"
  choice :: "'g \<Rightarrow> nat list \<Rightarrow> nat \<Rightarrow> bool \<Rightarrow> error + (nat list \<times> 'g)"

text \<open>The argument \<^verbatim>\<open>random_state\<close> of the sampler: \<^verbatim>\<open>None\<close>, an integer seed or a
  generator instance.\<close>

datatype 'g seed = NoneSeed | IntSeed int | Instance 'g

text \<open>\<^verbatim>\<open>check_random_state\<close>: \<^verbatim>\<open>None\<close> is the global generator of \<^verbatim>\<open>np.random\<close>
  (its current state is the argument \<open>glob\<close>), an integer seeds a fresh generator, an
  instance is used as it is.\<close>

fun check_random_state :: "'g numpy_random \<Rightarrow> 'g seed \<Rightarrow> 'g \<Rightarrow> error + 'g" where
  "check_random_state rng NoneSeed glob = Inr glob"
| "check_random_state rng (IntSeed s) glob = RandomState rng s"
| "check_random_state rng (Instance g) glob = Inr g"

text \<open>\<^verbatim>\<open>np.unique\<close>: the array is sorted, then adjacent duplicates are dropped.\<close>

definition unique :: "'c::linorder list \<Rightarrow> 'c list" where
  "unique y = remdups_adj (sort y)"

text \<open>\<^verbatim>\<open>y == target_class\<close>, \<^verbatim>\<open>np.count_nonzero\<close>, \<^verbatim>\<open>np.flatnonzero\<close> and \<^verbatim>\<open>range\<close>.\<close>

definition eq_mask :: "'c list \<Rightarrow> 'c \<Rightarrow> bool list" where
  "eq_mask y target_class = map (\<lambda>v. v = target_class) y"

definition count_nonzero :: "bool list \<Rightarrow> nat" where
  "count_nonzero bs = length (filter (\<lambda>b. b) bs)"

definition flatnonzero :: "bool list \<Rightarrow> nat list" where
  "flatnonzero bs = filter (\<lambda>i. bs ! i) [0..<length bs]"

definition range_list :: "nat \<Rightarrow> nat list" where
  "range_list k = [0..<k]"

text \<open>Indexing an array: by \<^verbatim>\<open>slice(None)\<close> (the whole array) or by an array of
  positions, which raises \<^verbatim>\<open>IndexError\<close> when a position is out of range.\<close>

datatype index = Slice_None | Index_array "nat list"

definition index_array :: "'a list \<Rightarrow> nat list \<Rightarrow> error + 'a list" where
  "index_array arr ps =
     (if list_all (\<lambda>p. p < length arr) ps then Inr (map (\<lambda>p. arr ! p) ps)
      else Inl IndexError)"

fun getitem :: "'a list \<Rightarrow> index \<Rightarrow> error + 'a list" where
  "getitem arr Slice_None = Inr arr"
| "getitem arr (Index_array ps) = index_array arr ps"

definition safe_indexing :: "'a list \<Rightarrow> nat list \<Rightarrow> error + 'a list" where
  "safe_indexing X indices = index_array X indices"

subsection \<open>The sampler\<close>

record ('c, 'g) RandomUnderSampler =
  sampling_target' :: "'c \<rightharpoonup> nat"
  return_indices :: bool
  random_state :: "'g seed"
  replacement :: bool

text \<open>The field \<open>sampling_target'\<close> is the attribute \<^verbatim>\<open>sampling_target_\<close> (an
  Isabelle name cannot end with an underscore): the dictionary from targeted classes to
  their numbers of samples.\<close>

text \<open>What \<^verbatim>\<open>_sample\<close> returns: a pair, or a triple when \<^verbatim>\<open>return_indices\<close> is set.\<close>

datatype ('r, 'c) resampled =
    Resampled "'r list" "'c list"
  | Resampled_indices "'r list" "'c list" "nat list"

fun X_resampled :: "('r, 'c) resampled \<Rightarrow> 'r list" where
  "X_resampled (Resampled Xr yr) = Xr"
| "X_resampled (Resampled_indices Xr yr idx) = Xr"

fun y_resampled :: "('r, 'c) resampled \<Rightarrow> 'c list" where
  "y_resampled (Resampled Xr yr) = yr"
| "y_resampled (Resampled_indices Xr yr idx) = yr"

fun returned_indices :: "('r, 'c) resampled \<Rightarrow> nat list option" where
  "returned_indices (Resampled Xr yr) = None"
| "returned_indices (Resampled_indices Xr yr idx) = Some idx"

text \<open>The body of the loop over the classes (lines 151 to 162): the state is the pair of
  \<^verbatim>\<open>idx_under\<close> and the generator.\<close>

definition loop_body ::
  "'g numpy_random \<Rightarrow> ('c, 'g) RandomUnderSampler \<Rightarrow> 'c list \<Rightarrow> 'c \<Rightarrow> nat list \<times> 'g
     \<Rightarrow> error + (nat list \<times> 'g)" where
  "loop_body rng self y target_class st =
     (case st of (idx_under, g) \<Rightarrow>
       (case
          (case sampling_target' self target_class of
             Some n_samples \<Rightarrow>
               (case choice rng g (range_list (count_nonzero (eq_mask y target_class)))
                       n_samples (replacement self) of
                  Inl e \<Rightarrow> Inl e
                | Inr (drawn, g') \<Rightarrow> Inr (Index_array drawn, g'))
           | None \<Rightarrow> Inr (Slice_None, g))
        of
          Inl e \<Rightarrow> Inl e
        | Inr (index_target_class, g') \<Rightarrow>
            (case getitem (flatnonzero (eq_mask y target_class)) index_target_class of
               Inl e \<Rightarrow> Inl e
             | Inr block \<Rightarrow> Inr (idx_under @ block, g'))))"

fun class_loop ::
  "'g numpy_random \<Rightarrow> ('c, 'g) RandomUnderSampler \<Rightarrow> 'c list \<Rightarrow> 'c list \<Rightarrow> nat list \<times> 'g
     \<Rightarrow> error + (nat list \<times> 'g)" where
  "class_loop rng self y [] st = Inr st"
| "class_loop rng self y (target_class # classes) st =
     (case loop_body rng self y target_class st of
        Inl e \<Rightarrow> Inl e
      | Inr st' \<Rightarrow> class_loop rng self y classes st')"

text \<open>Lines 146 to 162: the Index Selection \<^verbatim>\<open>idx_under\<close> and the generator after the
  last draw.\<close>

definition index_selection ::
  "'g numpy_random \<Rightarrow> ('c::linorder, 'g) RandomUnderSampler \<Rightarrow> 'g \<Rightarrow> 'c list
     \<Rightarrow> error + (nat list \<times> 'g)" where
  "index_selection rng self glob y =
     (case check_random_state rng (random_state self) glob of
        Inl e \<Rightarrow> Inl e
      | Inr g \<Rightarrow> class_loop rng self y (unique y) ([], g))"

text \<open>\<^verbatim>\<open>_sample\<close> (an Isabelle name cannot start with an underscore). The result carries
  the state in which the call leaves the generator it used.\<close>

definition sample ::
  "'g numpy_random \<Rightarrow> ('c::linorder, 'g) RandomUnderSampler \<Rightarrow> 'g \<Rightarrow> 'r list \<Rightarrow> 'c list
     \<Rightarrow> error + (('r, 'c) resampled \<times> 'g)" where
  "sample rng self glob X y =
     (case index_selection rng self glob y of
        Inl e \<Rightarrow> Inl e
      | Inr (idx_under, g) \<Rightarrow>
          (if return_indices self then
             (case safe_indexing X idx_under of
                Inl e \<Rightarrow> Inl e
              | Inr Xr \<Rightarrow>
                  (case safe_indexing y idx_under of
                     Inl e \<Rightarrow> Inl e
                   | Inr yr \<Rightarrow> Inr (Resampled_indices Xr yr idx_under, g)))
           else
             (case safe_indexing X idx_under of
                Inl e \<Rightarrow> Inl e
              | Inr Xr \<Rightarrow>
                  (case safe_indexing y idx_under of
                     Inl e \<Rightarrow> Inl e
                   | Inr yr \<Rightarrow> Inr (Resampled Xr yr, g)))))"

subsection \<open>The per-class blocks of the specification\<close>

text \<open>
  The specification describes the routine by blocks: for each class, in ascending order of
  the label, the positions \<open>available\<close> of the class (ascending), of which a targeted
  class contributes the drawn ones, in the order drawn, and an untargeted class all; the
  Index Selection is the concatenation of the blocks. The definitions \<open>class_block\<close>
  and \<open>index_blocks\<close> say this; the loop above is proved to compute it
  (\<open>class_loop_blocks\<close>).
\<close>

definition available :: "'c list \<Rightarrow> 'c \<Rightarrow> nat list" where
  "available y c = filter (\<lambda>i. y ! i = c) [0..<length y]"

definition class_block ::
  "'g numpy_random \<Rightarrow> ('c, 'g) RandomUnderSampler \<Rightarrow> 'c list \<Rightarrow> 'c \<Rightarrow> 'g
     \<Rightarrow> error + (nat list \<times> 'g)" where
  "class_block rng self y c g =
     (case sampling_target' self c of
        None \<Rightarrow> Inr (available y c, g)
      | Some n \<Rightarrow>
          (case choice rng g [0..<length (available y c)] n (replacement self) of
             Inl e \<Rightarrow> Inl e
           | Inr (drawn, g') \<Rightarrow>
               (case index_array (available y c) drawn of
                  Inl e \<Rightarrow> Inl e
                | Inr block \<Rightarrow> Inr (block, g'))))"

fun index_blocks ::
  "'g numpy_random \<Rightarrow> ('c, 'g) RandomUnderSampler \<Rightarrow> 'c list \<Rightarrow> 'c list \<Rightarrow> 'g
     \<Rightarrow> error + (nat list list \<times> 'g)" where
  "index_blocks rng self y [] g = Inr ([], g)"
| "index_blocks rng self y (c # cs) g =
     (case class_block rng self y c g of
        Inl e \<Rightarrow> Inl e
      | Inr (block, g1) \<Rightarrow>
          (case index_blocks rng self y cs g1 of
             Inl e \<Rightarrow> Inl e
           | Inr (blocks, g2) \<Rightarrow> Inr (block # blocks, g2)))"

text \<open>
  What numpy documents of \<^verbatim>\<open>choice(a, size=n, replace=r)\<close> on a non-empty population
  \<open>a\<close>: without replacement a sample larger than the population is refused with a
  \<^verbatim>\<open>ValueError\<close>; otherwise the call returns \<open>n\<close> elements of \<open>a\<close>, taken at positions
  \<open>ps\<close> of \<open>a\<close> that are pairwise different when \<open>r\<close> is false. The routine never
  calls it on an empty population, since it draws for classes of the labels only.
\<close>

definition choice_contract :: "'g numpy_random \<Rightarrow> bool" where
  "choice_contract rng \<longleftrightarrow>
     (\<forall>g a n r. a \<noteq> [] \<longrightarrow>
        (if \<not> r \<and> length a < n then choice rng g a n r = Inl ValueError_larger_sample
         else (\<exists>ps g'. choice rng g a n r = Inr (map (\<lambda>p. a ! p) ps, g') \<and> length ps = n \<and>
                 list_all (\<lambda>p. p < length a) ps \<and> (r \<or> distinct ps))))"

text \<open>The number of samples a class of the labels is to have in the result: its target
  when it is a key of the mapping, its own size otherwise.\<close>

definition resolved_count :: "('c, 'g) RandomUnderSampler \<Rightarrow> 'c list \<Rightarrow> 'c \<Rightarrow> nat" where
  "resolved_count self y c =
     (case sampling_target' self c of
        Some n \<Rightarrow> n
      | None \<Rightarrow> count_nonzero (eq_mask y c))"

text \<open>What is proved of the block of each class: its indices are positions of the class,
  it has the resolved size, it has no duplicate when the draw is without replacement, and
  it is the whole class when the class is not targeted.\<close>

definition block_ok ::
  "('c, 'g) RandomUnderSampler \<Rightarrow> 'c list \<Rightarrow> 'c \<Rightarrow> nat list \<Rightarrow> bool" where
  "block_ok self y c block \<longleftrightarrow>
     set block \<subseteq> set (available y c) \<and>
     length block = resolved_count self y c \<and>
     (replacement self \<or> distinct block) \<and>
     (sampling_target' self c \<noteq> None \<or> block = available y c)"

text \<open>Feasible target counts: without replacement no targeted class of the labels is
  asked for more samples than it has.\<close>

definition feasible :: "('c, 'g) RandomUnderSampler \<Rightarrow> 'c list \<Rightarrow> bool" where
  "feasible self y \<longleftrightarrow>
     (\<forall>c \<in> set y. case sampling_target' self c of
        None \<Rightarrow> True
      | Some n \<Rightarrow> replacement self \<or> n \<le> count_nonzero (eq_mask y c))"

subsection \<open>A concrete generator\<close>

text \<open>
  A small linear congruential generator with the interface of \<open>numpy_random\<close>: it draws
  with replacement by reducing its state modulo the population size, and without
  replacement by removing each drawn position from a shrinking pool. It shows that the
  contract \<open>choice_contract\<close> is satisfiable, and it runs the examples.
\<close>

definition lcg_next :: "nat \<Rightarrow> nat" where
  "lcg_next g = (5 * g + 3) mod 16"

fun lcg_randint :: "nat \<Rightarrow> nat \<Rightarrow> nat \<Rightarrow> nat list \<times> nat" where
  "lcg_randint g k 0 = ([], g)"
| "lcg_randint g k (Suc n) =
     (case lcg_randint (lcg_next g) k n of (ps, g') \<Rightarrow> (lcg_next g mod k # ps, g'))"

fun lcg_pick :: "nat \<Rightarrow> nat list \<Rightarrow> nat \<Rightarrow> nat list \<times> nat" where
  "lcg_pick g pool 0 = ([], g)"
| "lcg_pick g pool (Suc n) =
     (case lcg_pick (lcg_next g) (take (lcg_next g mod length pool) pool @
                        drop (Suc (lcg_next g mod length pool)) pool) n of
        (ps, g') \<Rightarrow> (pool ! (lcg_next g mod length pool) # ps, g'))"

definition lcg_choice :: "nat \<Rightarrow> nat list \<Rightarrow> nat \<Rightarrow> bool \<Rightarrow> error + (nat list \<times> nat)" where
  "lcg_choice g a n r =
     (if a = [] then Inl ValueError_empty
      else if r then
        (case lcg_randint g (length a) n of (ps, g') \<Rightarrow> Inr (map (\<lambda>p. a ! p) ps, g'))
      else if length a < n then Inl ValueError_larger_sample
      else
        (case lcg_pick g [0..<length a] n of (ps, g') \<Rightarrow> Inr (map (\<lambda>p. a ! p) ps, g')))"

definition lcg_RandomState :: "int \<Rightarrow> error + nat" where
  "lcg_RandomState s = (if 0 \<le> s \<and> s < 2 ^ 32 then Inr (nat s mod 16) else Inl ValueError_seed)"

definition lcg :: "nat numpy_random" where
  "lcg = \<lparr>RandomState = lcg_RandomState, choice = lcg_choice\<rparr>"

subsection \<open>A sparse representation of a row\<close>

text \<open>The list of the non-zero entries of a dense row with their columns, as a sparse
  matrix stores it.\<close>

definition sparse_row :: "int list \<Rightarrow> (nat \<times> int) list" where
  "sparse_row row = filter (\<lambda>(j, v). v \<noteq> 0) (zip [0..<length row] row)"

subsection \<open>Runs over a library that need not be deterministic\<close>

text \<open>
  For the reproducibility of a run the library is taken as a process whose outcomes are
  relations: \<open>seeds lib s res\<close> says that \<^verbatim>\<open>RandomState(s)\<close> may give \<open>res\<close>, and
  \<open>draws lib g a n r res\<close> that \<^verbatim>\<open>choice(a, size=n, replace=r)\<close> in the generator state
  \<open>g\<close> may give \<open>res\<close>. Nothing in this model makes two calls agree.
\<close>

record 'g numpy_process =
  seeds :: "int \<Rightarrow> error + 'g \<Rightarrow> bool"
  draws :: "'g \<Rightarrow> nat list \<Rightarrow> nat \<Rightarrow> bool \<Rightarrow> error + (nat list \<times> 'g) \<Rightarrow> bool"

text \<open>A deterministic library: the outcome of a seeding is fixed by the seed, the
  outcome of a draw by the generator state and the arguments.\<close>

definition deterministic :: "'g numpy_process \<Rightarrow> bool" where
  "deterministic lib \<longleftrightarrow>
     (\<forall>s r1 r2. seeds lib s r1 \<longrightarrow> seeds lib s r2 \<longrightarrow> r1 = r2) \<and>
     (\<forall>g a n r o1 o2. draws lib g a n r o1 \<longrightarrow> draws lib g a n r o2 \<longrightarrow> o1 = o2)"

text \<open>The library given by functions, as a process.\<close>

definition process_of :: "'g numpy_random \<Rightarrow> 'g numpy_process" where
  "process_of rng =
     \<lparr>seeds = (\<lambda>s res. RandomState rng s = res),
      draws = (\<lambda>g a n r res. choice rng g a n r = res)\<rparr>"

text \<open>The runs of \<^verbatim>\<open>_sample\<close> over such a library, line by line as above: line 146,
  the body of the loop, the loop, and the whole routine with its return (lines 164 to
  168, \<open>return_value\<close>).\<close>

inductive check_random_state_run ::
  "'g numpy_process \<Rightarrow> 'g seed \<Rightarrow> 'g \<Rightarrow> error + 'g \<Rightarrow> bool"
  for lib :: "'g numpy_process" where
    from_global: "check_random_state_run lib NoneSeed glob (Inr glob)"
  | from_seed: "seeds lib s res \<Longrightarrow> check_random_state_run lib (IntSeed s) glob res"
  | from_instance: "check_random_state_run lib (Instance g) glob (Inr g)"

inductive loop_body_run ::
  "'g numpy_process \<Rightarrow> ('c, 'g) RandomUnderSampler \<Rightarrow> 'c list \<Rightarrow> 'c \<Rightarrow> nat list \<times> 'g
     \<Rightarrow> error + (nat list \<times> 'g) \<Rightarrow> bool"
  for lib :: "'g numpy_process" and self :: "('c, 'g) RandomUnderSampler" and y :: "'c list" where
    kept_whole:
      "sampling_target' self target_class = None \<Longrightarrow>
       getitem (flatnonzero (eq_mask y target_class)) Slice_None = Inr block \<Longrightarrow>
       loop_body_run lib self y target_class (idx_under, g) (Inr (idx_under @ block, g))"
  | draw_raises:
      "sampling_target' self target_class = Some n_samples \<Longrightarrow>
       draws lib g (range_list (count_nonzero (eq_mask y target_class))) n_samples
         (replacement self) (Inl e) \<Longrightarrow>
       loop_body_run lib self y target_class (idx_under, g) (Inl e)"
  | index_raises:
      "sampling_target' self target_class = Some n_samples \<Longrightarrow>
       draws lib g (range_list (count_nonzero (eq_mask y target_class))) n_samples
         (replacement self) (Inr (drawn, g')) \<Longrightarrow>
       getitem (flatnonzero (eq_mask y target_class)) (Index_array drawn) = Inl e \<Longrightarrow>
       loop_body_run lib self y target_class (idx_under, g) (Inl e)"
  | sub_sampled:
      "sampling_target' self target_class = Some n_samples \<Longrightarrow>
       draws lib g (range_list (count_nonzero (eq_mask y target_class))) n_samples
         (replacement self) (Inr (drawn, g')) \<Longrightarrow>
       getitem (flatnonzero (eq_mask y target_class)) (Index_array drawn) = Inr block \<Longrightarrow>
       loop_body_run lib self y target_class (idx_under, g) (Inr (idx_under @ block, g'))"

inductive class_loop_run ::
  "'g numpy_process \<Rightarrow> ('c, 'g) RandomUnderSampler \<Rightarrow> 'c list \<Rightarrow> 'c list \<Rightarrow> nat list \<times> 'g
     \<Rightarrow> error + (nat list \<times> 'g) \<Rightarrow> bool"
  for lib :: "'g numpy_process" and self :: "('c, 'g) RandomUnderSampler" and y :: "'c list" where
    finished: "class_loop_run lib self y [] st (Inr st)"
  | raised:
      "loop_body_run lib self y target_class st (Inl e) \<Longrightarrow>
       class_loop_run lib self y (target_class # classes) st (Inl e)"
  | next_class:
      "loop_body_run lib self y target_class st (Inr st') \<Longrightarrow>
       class_loop_run lib self y classes st' res \<Longrightarrow>
       class_loop_run lib self y (target_class # classes) st res"

definition return_value ::
  "('c, 'g) RandomUnderSampler \<Rightarrow> 'r list \<Rightarrow> 'c list \<Rightarrow> nat list \<Rightarrow> 'g
     \<Rightarrow> error + (('r, 'c) resampled \<times> 'g)" where
  "return_value self X y idx_under g =
     (if return_indices self then
        (case safe_indexing X idx_under of
           Inl e \<Rightarrow> Inl e
         | Inr Xr \<Rightarrow>
             (case safe_indexing y idx_under of
                Inl e \<Rightarrow> Inl e
              | Inr yr \<Rightarrow> Inr (Resampled_indices Xr yr idx_under, g)))
      else
        (case safe_indexing X idx_under of
           Inl e \<Rightarrow> Inl e
         | Inr Xr \<Rightarrow>
             (case safe_indexing y idx_under of
                Inl e \<Rightarrow> Inl e
              | Inr yr \<Rightarrow> Inr (Resampled Xr yr, g))))"

inductive sample_run ::
  "'g numpy_process \<Rightarrow> ('c::linorder, 'g) RandomUnderSampler \<Rightarrow> 'g \<Rightarrow> 'r list \<Rightarrow> 'c list
     \<Rightarrow> error + (('r, 'c) resampled \<times> 'g) \<Rightarrow> bool"
  for lib :: "'g numpy_process" and self :: "('c, 'g) RandomUnderSampler" where
    seed_raises:
      "check_random_state_run lib (random_state self) glob (Inl e) \<Longrightarrow>
       sample_run lib self glob X y (Inl e)"
  | loop_raises:
      "check_random_state_run lib (random_state self) glob (Inr g) \<Longrightarrow>
       class_loop_run lib self y (unique y) ([], g) (Inl e) \<Longrightarrow>
       sample_run lib self glob X y (Inl e)"
  | returns:
      "check_random_state_run lib (random_state self) glob (Inr g) \<Longrightarrow>
       class_loop_run lib self y (unique y) ([], g) (Inr (idx_under, g')) \<Longrightarrow>
       sample_run lib self glob X y (return_value self X y idx_under g')"

text \<open>A library that is not deterministic: a draw may be any sample that numpy's
  contract allows.\<close>

definition any_draw :: "unit numpy_process" where
  "any_draw =
     \<lparr>seeds = (\<lambda>s res. res = Inr ()),
      draws = (\<lambda>g a n r res.
         \<exists>ps. res = Inr (map (\<lambda>p. a ! p) ps, ()) \<and> length ps = n \<and>
              list_all (\<lambda>p. p < length a) ps \<and> (r \<or> distinct ps))\<rparr>"

section \<open>Properties\<close>

subsection \<open>The array operations\<close>

lemma flatnonzero_eq_mask: "flatnonzero (eq_mask y c) = available y c"
  unfolding flatnonzero_def eq_mask_def available_def
  by (rule filter_cong) simp_all

lemma length_filter_upt_nth:
  "length (filter (\<lambda>i. bs ! i) [0..<length bs]) = length (filter (\<lambda>b. b) bs)"
proof (induction bs rule: rev_induct)
  case Nil
  show ?case by simp
next
  case (snoc b bs)
  have "filter (\<lambda>i. (bs @ [b]) ! i) [0..<length bs] = filter (\<lambda>i. bs ! i) [0..<length bs]"
    by (rule filter_cong) (simp_all add: nth_append)
  with snoc show ?case by simp
qed

lemma count_nonzero_eq_mask: "count_nonzero (eq_mask y c) = length (available y c)"
  using length_filter_upt_nth [of "eq_mask y c"]
  by (simp add: count_nonzero_def flatnonzero_eq_mask [symmetric] flatnonzero_def)

lemma available_bound: "i \<in> set (available y c) \<Longrightarrow> i < length y \<and> y ! i = c"
  by (simp add: available_def)

lemma available_nonempty: "c \<in> set y \<Longrightarrow> available y c \<noteq> []"
  by (auto simp: available_def filter_empty_conv in_set_conv_nth)

lemma distinct_available: "distinct (available y c)"
  by (simp add: available_def)

lemma sorted_available: "sorted (available y c)"
  unfolding available_def by (rule sorted_wrt_filter) simp

lemma distinct_remdups_adj_sorted: "sorted xs \<Longrightarrow> distinct (remdups_adj xs)"
  by (induction xs rule: remdups_adj.induct) auto

lemma unique_eq: "unique y = sorted_list_of_set (set y)"
proof -
  have "sorted (unique y)" "distinct (unique y)" "set (unique y) = set y"
    by (simp_all add: unique_def distinct_remdups_adj_sorted)
  then show ?thesis
    by (metis sorted_list_of_set.idem_if_sorted_distinct)
qed

lemma loop_body_block:
  "loop_body rng self y c (idx_under, g) =
     (case class_block rng self y c g of
        Inl e \<Rightarrow> Inl e
      | Inr (block, g') \<Rightarrow> Inr (idx_under @ block, g'))"
  by (simp add: loop_body_def class_block_def flatnonzero_eq_mask count_nonzero_eq_mask
      range_list_def split: option.splits sum.splits prod.splits)

lemma class_loop_blocks:
  "class_loop rng self y cs (idx_under, g) =
     (case index_blocks rng self y cs g of
        Inl e \<Rightarrow> Inl e
      | Inr (blocks, g') \<Rightarrow> Inr (idx_under @ concat blocks, g'))"
  by (induction cs arbitrary: idx_under g)
    (simp_all add: loop_body_block split: sum.splits prod.splits)

lemma index_array_Inr:
  "index_array arr ps = Inr out \<longleftrightarrow> list_all (\<lambda>p. p < length arr) ps \<and> out = map (\<lambda>p. arr ! p) ps"
  by (auto simp: index_array_def)

lemma map_nth_upt: "list_all (\<lambda>p. p < k) ps \<Longrightarrow> map (\<lambda>p. [0..<k] ! p) ps = ps"
  by (induction ps) simp_all

lemma class_block_untargeted:
  "sampling_target' self c = None \<Longrightarrow> class_block rng self y c g = Inr (available y c, g)"
  by (simp add: class_block_def)

lemma class_block_targeted:
  assumes "choice_contract rng" and "c \<in> set y" and "sampling_target' self c = Some n"
  shows "if \<not> replacement self \<and> length (available y c) < n
         then class_block rng self y c g = Inl ValueError_larger_sample
         else (\<exists>ps g'. choice rng g [0..<length (available y c)] n (replacement self) = Inr (ps, g') \<and>
                 class_block rng self y c g = Inr (map (\<lambda>p. available y c ! p) ps, g') \<and>
                 length ps = n \<and> list_all (\<lambda>p. p < length (available y c)) ps \<and>
                 (replacement self \<or> distinct ps))"
proof -
  let ?k = "length (available y c)"
  have ne: "[0..<?k] \<noteq> []"
    using available_nonempty [OF assms(2)] by simp
  from assms(1) ne
  have c: "if \<not> replacement self \<and> length [0..<?k] < n
       then choice rng g [0..<?k] n (replacement self) = Inl ValueError_larger_sample
       else (\<exists>ps g'. choice rng g [0..<?k] n (replacement self) = Inr (map (\<lambda>p. [0..<?k] ! p) ps, g') \<and>
               length ps = n \<and> list_all (\<lambda>p. p < length [0..<?k]) ps \<and>
               (replacement self \<or> distinct ps))"
    unfolding choice_contract_def by blast
  show ?thesis
  proof (cases "\<not> replacement self \<and> ?k < n")
    case True
    with c assms(3) show ?thesis by (simp add: class_block_def)
  next
    case False
    with c obtain ps g' where
      ch: "choice rng g [0..<?k] n (replacement self) = Inr (map (\<lambda>p. [0..<?k] ! p) ps, g')"
      and len: "length ps = n" and bnd: "list_all (\<lambda>p. p < ?k) ps"
      and dis: "replacement self \<or> distinct ps"
      by auto
    from bnd have eq: "map (\<lambda>p. [0..<?k] ! p) ps = ps" by (rule map_nth_upt)
    from ch eq bnd assms(3) have "class_block rng self y c g = Inr (map (\<lambda>p. available y c ! p) ps, g')"
      by (simp add: class_block_def index_array_def)
    with False ch eq len bnd dis show ?thesis by auto
  qed
qed

lemma class_block_subset:
  assumes "class_block rng self y c g = Inr (block, g')"
  shows "set block \<subseteq> set (available y c)"
proof (cases "sampling_target' self c")
  case None
  with assms show ?thesis by (simp add: class_block_def)
next
  case (Some n)
  with assms obtain drawn where "index_array (available y c) drawn = Inr block"
    by (auto simp: class_block_def split: sum.splits prod.splits)
  then show ?thesis
    by (auto simp: index_array_Inr list_all_iff)
qed

lemma class_block_ok:
  assumes "choice_contract rng" and "c \<in> set y"
    and "class_block rng self y c g = Inr (block, g')"
  shows "block_ok self y c block"
proof (cases "sampling_target' self c")
  case None
  with assms(3) have "block = available y c" by (simp add: class_block_def)
  with None show ?thesis
    by (simp add: block_ok_def resolved_count_def count_nonzero_eq_mask distinct_available)
next
  case (Some n)
  let ?av = "available y c"
  from class_block_targeted [OF assms(1,2) Some, of g] assms(3)
  obtain ps where blk: "block = map (\<lambda>p. ?av ! p) ps" and len: "length ps = n"
    and bnd: "list_all (\<lambda>p. p < length ?av) ps" and dis: "replacement self \<or> distinct ps"
    by (auto split: if_splits)
  have "distinct ps \<Longrightarrow> distinct block"
    unfolding blk using bnd distinct_available [of y c]
    by (auto simp: distinct_map inj_on_def list_all_iff nth_eq_iff_index_eq)
  with blk len dis Some class_block_subset [OF assms(3)] show ?thesis
    by (auto simp: block_ok_def resolved_count_def)
qed

lemma class_block_feasible:
  assumes "choice_contract rng" and "c \<in> set y" and "feasible self y"
  shows "\<exists>block g'. class_block rng self y c g = Inr (block, g')"
proof (cases "sampling_target' self c")
  case None
  then show ?thesis by (simp add: class_block_def)
next
  case (Some n)
  from assms(2,3) Some have "replacement self \<or> n \<le> length (available y c)"
    by (auto simp: feasible_def count_nonzero_eq_mask)
  with class_block_targeted [OF assms(1,2) Some, of g] show ?thesis
    by (auto split: if_splits)
qed

lemma index_blocks_ok:
  assumes "choice_contract rng"
  shows "set cs \<subseteq> set y \<Longrightarrow> index_blocks rng self y cs g = Inr (blocks, g') \<Longrightarrow>
         list_all2 (block_ok self y) cs blocks"
proof (induction cs arbitrary: g blocks)
  case Nil
  then show ?case by simp
next
  case (Cons c cs)
  from Cons.prems(2) obtain b g1 bs where
    b: "class_block rng self y c g = Inr (b, g1)"
    and bs: "index_blocks rng self y cs g1 = Inr (bs, g')" and eq: "blocks = b # bs"
    by (auto split: sum.splits prod.splits)
  from Cons.prems(1) have "c \<in> set y" "set cs \<subseteq> set y" by simp_all
  with b bs eq Cons.IH [of g1 bs] class_block_ok [OF assms, of c y self g b g1]
  show ?case by simp
qed

lemma index_blocks_feasible:
  assumes "choice_contract rng" and "feasible self y"
  shows "set cs \<subseteq> set y \<Longrightarrow> \<exists>blocks g'. index_blocks rng self y cs g = Inr (blocks, g')"
proof (induction cs arbitrary: g)
  case Nil
  then show ?case by simp
next
  case (Cons c cs)
  then have "c \<in> set y" "set cs \<subseteq> set y" by simp_all
  from class_block_feasible [OF assms(1) this(1) assms(2), of g]
  obtain b g1 where b: "class_block rng self y c g = Inr (b, g1)" by blast
  from Cons.IH [OF \<open>set cs \<subseteq> set y\<close>, of g1]
  obtain bs g' where "index_blocks rng self y cs g1 = Inr (bs, g')" by blast
  with b show ?case by simp
qed

lemma blocks_filter_other:
  "list_all2 (\<lambda>c block. set block \<subseteq> set (available y c)) cs blocks \<Longrightarrow> c \<notin> set cs \<Longrightarrow>
   filter (\<lambda>i. y ! i = c) (concat blocks) = []"
proof (induction rule: list_all2_induct)
  case Nil
  show ?case by simp
next
  case (Cons c' cs b bs)
  from Cons.hyps(1) Cons.prems have "filter (\<lambda>i. y ! i = c) b = []"
    by (auto simp: filter_empty_conv dest: available_bound)
  with Cons show ?case by simp
qed

lemma blocks_filter_own:
  "list_all2 (\<lambda>c block. set block \<subseteq> set (available y c)) cs blocks \<Longrightarrow> distinct cs \<Longrightarrow>
   (c, b) \<in> set (zip cs blocks) \<Longrightarrow> filter (\<lambda>i. y ! i = c) (concat blocks) = b"
proof (induction rule: list_all2_induct)
  case Nil
  then show ?case by simp
next
  case (Cons c' cs b' bs)
  show ?case
  proof (cases "(c, b) \<in> set (zip cs bs)")
    case True
    then have "c \<in> set cs" by (rule set_zip_leftD)
    with Cons.prems(1) have "c' \<noteq> c" by auto
    with Cons.hyps(1) have "filter (\<lambda>i. y ! i = c) b' = []"
      by (auto simp: filter_empty_conv dest: available_bound)
    with Cons True show ?thesis by simp
  next
    case False
    with Cons.prems(2) have eq: "c' = c" "b' = b" by simp_all
    with Cons.prems(1) have "c \<notin> set cs" by simp
    from blocks_filter_other [OF Cons.hyps(2) this]
    have "filter (\<lambda>i. y ! i = c) (concat bs) = []" .
    moreover from Cons.hyps(1) eq have "filter (\<lambda>i. y ! i = c) b = b"
      by (auto simp: filter_id_conv dest: available_bound)
    ultimately show ?thesis using eq by simp
  qed
qed

lemma blocks_distinct:
  "list_all2 (\<lambda>c block. set block \<subseteq> set (available y c) \<and> distinct block) cs blocks \<Longrightarrow>
   distinct cs \<Longrightarrow> distinct (concat blocks)"
proof (induction rule: list_all2_induct)
  case Nil
  show ?case by simp
next
  case (Cons c cs b bs)
  have "set b \<inter> set (concat bs) = {}"
  proof (rule ccontr)
    assume "set b \<inter> set (concat bs) \<noteq> {}"
    then obtain i where i: "i \<in> set b" "i \<in> set (concat bs)" by blast
    from i(1) Cons.hyps(1) have yi: "y ! i = c" by (auto dest: available_bound)
    from i(2) obtain b' where "b' \<in> set bs" "i \<in> set b'" by auto
    then obtain j where j: "j < length bs" "bs ! j = b'" by (auto simp: in_set_conv_nth)
    with Cons.hyps(2) have "set b' \<subseteq> set (available y (cs ! j))" "j < length cs"
      by (auto simp: list_all2_conv_all_nth)
    with \<open>i \<in> set b'\<close> have "y ! i = cs ! j" "cs ! j \<in> set cs"
      by (auto dest: available_bound)
    with yi Cons.prems show False by auto
  qed
  with Cons show ?case by simp
qed

lemma blocks_length:
  "list_all2 (\<lambda>c block. length block = f c) cs blocks \<Longrightarrow>
   length (concat blocks) = sum_list (map f cs)"
  by (induction rule: list_all2_induct) simp_all

lemma blocks_bound:
  "list_all2 (\<lambda>c block. set block \<subseteq> set (available y c)) cs blocks \<Longrightarrow>
   i \<in> set (concat blocks) \<Longrightarrow> i < length y"
  by (induction rule: list_all2_induct) (auto dest: available_bound)

subsection \<open>The concrete generator meets the contract\<close>

lemma lcg_randint_props:
  "0 < k \<Longrightarrow> lcg_randint g k n = (ps, g') \<Longrightarrow> length ps = n \<and> list_all (\<lambda>p. p < k) ps"
  by (induction n arbitrary: g ps g') (auto split: prod.splits)

lemma lcg_pick_props:
  "n \<le> length pool \<Longrightarrow> distinct pool \<Longrightarrow> lcg_pick g pool n = (ps, g') \<Longrightarrow>
   length ps = n \<and> set ps \<subseteq> set pool \<and> distinct ps"
proof (induction n arbitrary: g pool ps g')
  case 0
  then show ?case by simp
next
  case (Suc n)
  let ?j = "lcg_next g mod length pool"
  let ?rest = "take ?j pool @ drop (Suc ?j) pool"
  from Suc.prems(1) have "0 < length pool" by (cases pool) simp_all
  then have j: "?j < length pool" by simp
  obtain qs where rec: "lcg_pick (lcg_next g) ?rest n = (qs, g')" and ps: "ps = pool ! ?j # qs"
    using Suc.prems(3) by (auto split: prod.splits)
  have pool: "pool = take ?j pool @ pool ! ?j # drop (Suc ?j) pool"
    using j by (rule id_take_nth_drop)
  have dr: "distinct ?rest" and notin: "pool ! ?j \<notin> set ?rest"
    using Suc.prems(2) by (subst (asm) pool, simp)+
  have sub: "set ?rest \<subseteq> set pool"
    using set_take_subset [of ?j pool] set_drop_subset [of "Suc ?j" pool] by auto
  have len: "n \<le> length ?rest"
    using Suc.prems(1) j by simp
  from Suc.IH [OF len dr rec] have "length qs = n" "set qs \<subseteq> set ?rest" "distinct qs"
    by simp_all
  with ps sub notin j show ?case by auto
qed

lemma lcg_contract: "choice_contract lcg"
  unfolding choice_contract_def
proof (intro allI impI)
  fix g :: nat and a :: "nat list" and n r
  assume a: "a \<noteq> []"
  show "if \<not> r \<and> length a < n then choice lcg g a n r = Inl ValueError_larger_sample
        else (\<exists>ps g'. choice lcg g a n r = Inr (map (\<lambda>p. a ! p) ps, g') \<and> length ps = n \<and>
                list_all (\<lambda>p. p < length a) ps \<and> (r \<or> distinct ps))"
  proof (cases r)
    case True
    obtain ps g' where d: "lcg_randint g (length a) n = (ps, g')" by force
    from a lcg_randint_props [OF _ d] have "length ps = n" "list_all (\<lambda>p. p < length a) ps"
      by simp_all
    with True a d show ?thesis by (auto simp: lcg_def lcg_choice_def)
  next
    case False
    show ?thesis
    proof (cases "length a < n")
      case True
      with False a show ?thesis by (simp add: lcg_def lcg_choice_def)
    next
      case le: False
      obtain ps g' where d: "lcg_pick g [0..<length a] n = (ps, g')" by force
      from le lcg_pick_props [OF _ _ d]
      have "length ps = n" "set ps \<subseteq> {0..<length a}" "distinct ps" by simp_all
      then have "length ps = n" "list_all (\<lambda>p. p < length a) ps" "distinct ps"
        by (auto simp: list_all_iff)
      with False le a d show ?thesis by (auto simp: lcg_def lcg_choice_def)
    qed
  qed
qed

subsection \<open>The result of the routine\<close>

lemma index_selection_blocks:
  "check_random_state rng (random_state self) glob = Inr g0 \<Longrightarrow>
   index_selection rng self glob y =
     (case index_blocks rng self y (unique y) g0 of
        Inl e \<Rightarrow> Inl e
      | Inr (blocks, g') \<Rightarrow> Inr (concat blocks, g'))"
  by (simp add: index_selection_def class_loop_blocks split: sum.splits prod.splits)

lemma index_selection_Inr:
  assumes "index_selection rng self glob y = Inr (idx, g')"
  obtains g0 blocks where "check_random_state rng (random_state self) glob = Inr g0"
    and "index_blocks rng self y (unique y) g0 = Inr (blocks, g')" and "idx = concat blocks"
  using assms
  by (auto simp: index_selection_def class_loop_blocks split: sum.splits prod.splits)

lemma sample_Inr:
  "sample rng self glob X y = Inr (out, g') \<longleftrightarrow>
     (\<exists>idx. index_selection rng self glob y = Inr (idx, g') \<and>
        list_all (\<lambda>p. p < length X) idx \<and> list_all (\<lambda>p. p < length y) idx \<and>
        out = (if return_indices self
               then Resampled_indices (map (\<lambda>p. X ! p) idx) (map (\<lambda>p. y ! p) idx) idx
               else Resampled (map (\<lambda>p. X ! p) idx) (map (\<lambda>p. y ! p) idx)))"
  by (auto simp: sample_def safe_indexing_def index_array_def split: sum.splits prod.splits)

lemma unique_props: "set (unique y) = set y" "distinct (unique y)" "sorted (unique y)"
  by (simp_all add: unique_eq)

lemma block_ok_subset:
  "list_all2 (block_ok self y) cs blocks \<Longrightarrow>
   list_all2 (\<lambda>c block. set block \<subseteq> set (available y c)) cs blocks"
  by (erule list_all2_mono) (simp add: block_ok_def)

lemma index_blocks_subset:
  "index_blocks rng self y cs g = Inr (blocks, g') \<Longrightarrow>
   list_all2 (\<lambda>c block. set block \<subseteq> set (available y c)) cs blocks"
proof (induction cs arbitrary: g blocks)
  case Nil
  then show ?case by simp
next
  case (Cons c cs)
  from Cons.prems obtain b g1 bs where
    b: "class_block rng self y c g = Inr (b, g1)"
    and bs: "index_blocks rng self y cs g1 = Inr (bs, g')" and eq: "blocks = b # bs"
    by (auto split: sum.splits prod.splits)
  with Cons.IH [of g1 bs] class_block_subset [OF b] show ?case by simp
qed

lemma index_array_map:
  "index_array (map f arr) ps =
     (case index_array arr ps of Inl e \<Rightarrow> Inl e | Inr out \<Rightarrow> Inr (map f out))"
  by (auto simp: index_array_def list_all_iff)

lemma index_blocks_untargeted:
  "index_blocks rng self y cs g = Inr (blocks, g') \<Longrightarrow> c \<in> set cs \<Longrightarrow>
   sampling_target' self c = None \<Longrightarrow> (c, available y c) \<in> set (zip cs blocks)"
proof (induction cs arbitrary: g blocks)
  case Nil
  then show ?case by simp
next
  case (Cons c' cs)
  from Cons.prems(1) obtain b g1 bs where
    b: "class_block rng self y c' g = Inr (b, g1)"
    and bs: "index_blocks rng self y cs g1 = Inr (bs, g')" and eq: "blocks = b # bs"
    by (auto split: sum.splits prod.splits)
  show ?case
  proof (cases "c = c'")
    case True
    with b Cons.prems(3) have "b = available y c" by (simp add: class_block_untargeted)
    with True eq show ?thesis by simp
  next
    case False
    with Cons.prems(2) have "c \<in> set cs" by simp
    from Cons.IH [OF bs this Cons.prems(3)] eq show ?thesis by simp
  qed
qed

lemma class_block_error:
  assumes "choice_contract rng" and "c \<in> set y"
    and "class_block rng self y c g = Inl e"
  shows "e = ValueError_larger_sample"
proof (cases "sampling_target' self c")
  case None
  with assms(3) show ?thesis by (simp add: class_block_def)
next
  case (Some n)
  from class_block_targeted [OF assms(1,2) Some, of g] assms(3)
  show ?thesis by (auto split: if_splits)
qed

lemma class_block_infeasible:
  assumes "choice_contract rng" and "c \<in> set y"
    and "sampling_target' self c = Some n" and "\<not> replacement self"
    and "count_nonzero (eq_mask y c) < n"
  shows "class_block rng self y c g = Inl ValueError_larger_sample"
  using class_block_targeted [OF assms(1,2,3), of g] assms(4,5)
  by (simp add: count_nonzero_eq_mask)

lemma index_blocks_infeasible:
  assumes "choice_contract rng" and "sampling_target' self c = Some n"
    and "\<not> replacement self" and "count_nonzero (eq_mask y c) < n"
  shows "set cs \<subseteq> set y \<Longrightarrow> c \<in> set cs \<Longrightarrow>
         index_blocks rng self y cs g = Inl ValueError_larger_sample"
proof (induction cs arbitrary: g)
  case Nil
  then show ?case by simp
next
  case (Cons c' cs)
  then have c': "c' \<in> set y" and sub: "set cs \<subseteq> set y" by simp_all
  show ?case
  proof (cases "class_block rng self y c' g")
    case (Inl e)
    with class_block_error [OF assms(1) c' Inl] show ?thesis by simp
  next
    case (Inr r)
    obtain b g1 where r: "r = (b, g1)" by (cases r)
    have "c' \<noteq> c"
    proof
      assume "c' = c"
      with class_block_infeasible [OF assms(1) c' _ assms(3), of n g] assms(2,4) Inr
      show False by simp
    qed
    with Cons.prems(2) have "c \<in> set cs" by simp
    from Cons.IH [OF sub this, of g1] Inr r show ?thesis by simp
  qed
qed

lemma loop_body_cong:
  assumes "sampling_target' self1 c = sampling_target' self2 c"
    and "replacement self1 = replacement self2"
  shows "loop_body rng self1 y c st = loop_body rng self2 y c st"
  unfolding loop_body_def assms by (rule refl)

lemma class_loop_cong:
  assumes "replacement self1 = replacement self2"
  shows "(\<And>c. c \<in> set cs \<Longrightarrow> sampling_target' self1 c = sampling_target' self2 c) \<Longrightarrow>
         class_loop rng self1 y cs st = class_loop rng self2 y cs st"
proof (induction cs arbitrary: st)
  case Nil
  show ?case by simp
next
  case (Cons c cs)
  have "loop_body rng self1 y c st = loop_body rng self2 y c st"
    by (rule loop_body_cong) (simp_all add: Cons.prems assms)
  moreover have "class_loop rng self1 y cs st' = class_loop rng self2 y cs st'" for st'
    by (rule Cons.IH) (simp add: Cons.prems)
  ultimately show ?case by (simp split: sum.splits)
qed

lemma class_block_shape:
  assumes "class_block rng self y c g = Inr (block, g')"
  shows "case sampling_target' self c of
           None \<Rightarrow> block = available y c
         | Some n \<Rightarrow>
             (\<exists>g1 g2 drawn.
                choice rng g1 (range_list (length (available y c))) n (replacement self) =
                  Inr (drawn, g2) \<and>
                block = map (\<lambda>p. available y c ! p) drawn)"
proof (cases "sampling_target' self c")
  case None
  with assms show ?thesis by (simp add: class_block_def)
next
  case (Some n)
  with assms obtain drawn where
    "choice rng g [0..<length (available y c)] n (replacement self) = Inr (drawn, g')"
    and "index_array (available y c) drawn = Inr block"
    by (auto simp: class_block_def split: sum.splits prod.splits)
  then have "choice rng g (range_list (length (available y c))) n (replacement self) =
      Inr (drawn, g') \<and> block = map (\<lambda>p. available y c ! p) drawn"
    by (simp add: range_list_def index_array_Inr)
  with Some show ?thesis by auto
qed

lemma index_blocks_shape:
  "index_blocks rng self y cs g = Inr (blocks, g') \<Longrightarrow>
   list_all2 (\<lambda>c block.
       case sampling_target' self c of
         None \<Rightarrow> block = available y c
       | Some n \<Rightarrow>
           (\<exists>g1 g2 drawn.
              choice rng g1 (range_list (length (available y c))) n (replacement self) =
                Inr (drawn, g2) \<and>
              block = map (\<lambda>p. available y c ! p) drawn)) cs blocks"
proof (induction cs arbitrary: g blocks)
  case Nil
  then show ?case by simp
next
  case (Cons c cs)
  from Cons.prems obtain b g1 bs where
    b: "class_block rng self y c g = Inr (b, g1)"
    and bs: "index_blocks rng self y cs g1 = Inr (bs, g')" and eq: "blocks = b # bs"
    by (auto split: sum.splits prod.splits)
  from class_block_shape [OF b] Cons.IH [OF bs] eq show ?case by simp
qed

lemma count_nonzero_selected:
  "count_nonzero (eq_mask (map (\<lambda>i. y ! i) idx) c) = length (filter (\<lambda>i. y ! i = c) idx)"
  by (simp add: count_nonzero_def eq_mask_def comp_def)

lemma list_all2_zip_pick:
  "list_all2 P cs bs \<Longrightarrow> c \<in> set cs \<Longrightarrow> \<exists>b. (c, b) \<in> set (zip cs bs) \<and> P c b"
  by (induction rule: list_all2_induct) auto

lemma selected_of_class:
  assumes "choice_contract rng" and "index_selection rng self glob y = Inr (idx, g')"
    and "c \<in> set y"
  shows "block_ok self y c (filter (\<lambda>i. y ! i = c) idx)"
proof -
  from assms(2) obtain g0 blocks where
    bl: "index_blocks rng self y (unique y) g0 = Inr (blocks, g')" and idx: "idx = concat blocks"
    by (rule index_selection_Inr)
  from index_blocks_ok [OF assms(1) _ bl]
  have ok: "list_all2 (block_ok self y) (unique y) blocks"
    by (simp add: unique_props)
  from assms(3) have "c \<in> set (unique y)" by (simp add: unique_props)
  from list_all2_zip_pick [OF ok this] obtain b where
    b: "(c, b) \<in> set (zip (unique y) blocks)" "block_ok self y c b"
    by blast
  from blocks_filter_own [OF index_blocks_subset [OF bl] unique_props(2) b(1)] idx b(2)
  show ?thesis by simp
qed

subsection \<open>Runs over a library given by relations\<close>

lemma check_random_state_run_seeded:
  assumes "deterministic lib"
    and "check_random_state_run lib (IntSeed s) glob1 res1"
    and "check_random_state_run lib (IntSeed s) glob2 res2"
  shows "res2 = res1"
proof -
  from assms(2) have "seeds lib s res1" by cases
  moreover from assms(3) have "seeds lib s res2" by cases
  ultimately show ?thesis using assms(1) unfolding deterministic_def by blast
qed

lemma loop_body_run_deterministic:
  assumes "deterministic lib"
    and "loop_body_run lib self y c st res1"
    and "loop_body_run lib self y c st res2"
  shows "res2 = res1"
proof -
  have draw: "o2 = o1" if "draws lib g a n r o1" "draws lib g a n r o2" for g a n r o1 o2
    using assms(1) that unfolding deterministic_def by blast
  from assms(2) show ?thesis
  proof cases
    case (kept_whole block idx_under g)
    with assms(3) show ?thesis by cases auto
  next
    case (draw_raises n_samples g e idx_under)
    from assms(3) show ?thesis
      using draw_raises by cases (auto dest: draw)
  next
    case (index_raises n_samples g drawn g' e idx_under)
    from assms(3) show ?thesis
      using index_raises by cases (auto dest: draw)
  next
    case (sub_sampled n_samples g drawn g' block idx_under)
    from assms(3) show ?thesis
      using sub_sampled by cases (auto dest: draw)
  qed
qed

lemma class_loop_run_deterministic:
  assumes "deterministic lib"
  shows "class_loop_run lib self y cs st res1 \<Longrightarrow> class_loop_run lib self y cs st res2 \<Longrightarrow>
         res2 = res1"
proof (induction arbitrary: res2 rule: class_loop_run.induct)
  case (finished st)
  from finished.prems show ?case by cases simp
next
  case (raised c st e cs)
  from raised.prems show ?case
  proof cases
    case (raised e')
    with loop_body_run_deterministic [OF assms raised.hyps this(2)] show ?thesis by simp
  next
    case (next_class st')
    with loop_body_run_deterministic [OF assms raised.hyps this(1)] show ?thesis by simp
  qed
next
  case (next_class c st st' cs res)
  from next_class.prems show ?case
  proof cases
    case (raised e')
    with loop_body_run_deterministic [OF assms next_class.hyps(1) this(2)] show ?thesis by simp
  next
    case inner: (next_class st'')
    from loop_body_run_deterministic [OF assms next_class.hyps(1) inner(1)]
    have "st'' = st'" by simp
    with inner(2) next_class.IH show ?thesis by simp
  qed
qed

lemma return_value_map:
  "return_value self (map f X) y idx_under g =
     (case return_value self X y idx_under g of
        Inl e \<Rightarrow> Inl e
      | Inr (out, g') \<Rightarrow> Inr (map_resampled f id out, g'))"
  by (simp add: return_value_def safe_indexing_def index_array_map split: sum.splits)

lemma sample_run_outcome:
  assumes "sample_run lib self glob X y res"
  obtains seeded looped where
    "check_random_state_run lib (random_state self) glob seeded"
    and "case seeded of
           Inl e \<Rightarrow> res = Inl e
         | Inr g \<Rightarrow>
             class_loop_run lib self y (unique y) ([], g) looped \<and>
             res = (case looped of
                      Inl e \<Rightarrow> Inl e
                    | Inr (idx_under, g') \<Rightarrow> return_value self X y idx_under g')"
  using assms
proof cases
  case (seed_raises e)
  with that [of "Inl e" undefined] show ?thesis by simp
next
  case (loop_raises g e)
  with that [of "Inr g" "Inl e"] show ?thesis by simp
next
  case (returns g idx_under g')
  with that [of "Inr g" "Inr (idx_under, g')"] show ?thesis by simp
qed

lemma deterministic_process_of: "deterministic (process_of rng)"
  by (simp add: deterministic_def process_of_def)

lemma check_random_state_run_process_of:
  "check_random_state_run (process_of rng) seed glob res \<longleftrightarrow>
   check_random_state rng seed glob = res"
  by (cases seed)
    (auto simp: process_of_def elim: check_random_state_run.cases
      intro: check_random_state_run.intros)

lemma loop_body_run_process_of:
  "loop_body_run (process_of rng) self y c st res \<longleftrightarrow> loop_body rng self y c st = res"
proof
  assume "loop_body_run (process_of rng) self y c st res"
  then show "loop_body rng self y c st = res"
    by cases (simp_all add: loop_body_def process_of_def)
next
  assume res: "loop_body rng self y c st = res"
  obtain idx_under g where st: "st = (idx_under, g)" by (cases st)
  show "loop_body_run (process_of rng) self y c st res"
  proof (cases "sampling_target' self c")
    case None
    have "loop_body_run (process_of rng) self y c (idx_under, g)
        (Inr (idx_under @ flatnonzero (eq_mask y c), g))"
      by (rule loop_body_run.kept_whole [OF None]) simp
    with res st None show ?thesis by (auto simp: loop_body_def)
  next
    case (Some n)
    let ?draw = "choice rng g (range_list (count_nonzero (eq_mask y c))) n (replacement self)"
    have d: "draws (process_of rng) g (range_list (count_nonzero (eq_mask y c))) n
        (replacement self) ?draw"
      by (simp add: process_of_def)
    show ?thesis
    proof (cases ?draw)
      case (Inl e)
      from loop_body_run.draw_raises [OF Some d [unfolded Inl]]
      show ?thesis using res st Some Inl by (auto simp: loop_body_def)
    next
      case (Inr r)
      obtain drawn g' where r: "r = (drawn, g')" by (cases r)
      show ?thesis
      proof (cases "getitem (flatnonzero (eq_mask y c)) (Index_array drawn)")
        case gl: (Inl e)
        from loop_body_run.index_raises [OF Some d [unfolded Inr r] gl]
        show ?thesis using res st Some Inr r gl by (auto simp: loop_body_def)
      next
        case gr: (Inr block)
        from loop_body_run.sub_sampled [OF Some d [unfolded Inr r] gr]
        show ?thesis using res st Some Inr r gr by (auto simp: loop_body_def)
      qed
    qed
  qed
qed

lemma class_loop_run_process_of:
  "class_loop_run (process_of rng) self y cs st res \<longleftrightarrow> class_loop rng self y cs st = res"
proof (induction cs arbitrary: st)
  case Nil
  show ?case by (auto elim: class_loop_run.cases intro: class_loop_run.intros)
next
  case (Cons c cs)
  show ?case
  proof
    assume "class_loop_run (process_of rng) self y (c # cs) st res"
    then show "class_loop rng self y (c # cs) st = res"
      by cases (simp_all add: loop_body_run_process_of Cons.IH)
  next
    assume res: "class_loop rng self y (c # cs) st = res"
    show "class_loop_run (process_of rng) self y (c # cs) st res"
    proof (cases "loop_body rng self y c st")
      case (Inl e)
      then have "loop_body_run (process_of rng) self y c st (Inl e)"
        by (simp add: loop_body_run_process_of)
      then have "class_loop_run (process_of rng) self y (c # cs) st (Inl e)"
        by (rule class_loop_run.raised)
      with res Inl show ?thesis by simp
    next
      case (Inr st')
      then have "loop_body_run (process_of rng) self y c st (Inr st')"
        by (simp add: loop_body_run_process_of)
      moreover have "class_loop_run (process_of rng) self y cs st' res"
        using res Inr by (simp add: Cons.IH)
      ultimately show ?thesis by (rule class_loop_run.next_class)
    qed
  qed
qed

lemma sample_return_value:
  "sample rng self glob X y =
     (case index_selection rng self glob y of
        Inl e \<Rightarrow> Inl e
      | Inr (idx_under, g) \<Rightarrow> return_value self X y idx_under g)"
  by (simp add: sample_def return_value_def split: sum.splits prod.splits)

lemma sample_run_process_of:
  "sample_run (process_of rng) self glob X y res \<longleftrightarrow> sample rng self glob X y = res"
proof
  assume "sample_run (process_of rng) self glob X y res"
  then show "sample rng self glob X y = res"
    by cases
      (simp_all add: check_random_state_run_process_of class_loop_run_process_of
        sample_return_value index_selection_def)
next
  assume res: "sample rng self glob X y = res"
  show "sample_run (process_of rng) self glob X y res"
  proof (cases "check_random_state rng (random_state self) glob")
    case (Inl e)
    then have "check_random_state_run (process_of rng) (random_state self) glob (Inl e)"
      by (simp add: check_random_state_run_process_of)
    then have "sample_run (process_of rng) self glob X y (Inl e)"
      by (rule sample_run.seed_raises)
    with res Inl show ?thesis by (simp add: sample_return_value index_selection_def)
  next
    case (Inr g)
    then have c: "check_random_state_run (process_of rng) (random_state self) glob (Inr g)"
      by (simp add: check_random_state_run_process_of)
    show ?thesis
    proof (cases "class_loop rng self y (unique y) ([], g)")
      case l: (Inl e)
      then have "class_loop_run (process_of rng) self y (unique y) ([], g) (Inl e)"
        by (simp add: class_loop_run_process_of)
      with c have "sample_run (process_of rng) self glob X y (Inl e)"
        by (rule sample_run.loop_raises)
      with res Inr l show ?thesis by (simp add: sample_return_value index_selection_def)
    next
      case r: (Inr st)
      obtain idx_under g' where st: "st = (idx_under, g')" by (cases st)
      from r st have "class_loop_run (process_of rng) self y (unique y) ([], g)
          (Inr (idx_under, g'))"
        by (simp add: class_loop_run_process_of)
      with c have "sample_run (process_of rng) self glob X y (return_value self X y idx_under g')"
        by (rule sample_run.returns)
      with res Inr r st show ?thesis by (simp add: sample_return_value index_selection_def)
    qed
  qed
qed

subsection \<open>The claims\<close>

text \<open>
  C1. For features of \<open>N\<close> rows, labels of length \<open>N\<close> and a sampling target mapping
  whose keys are classes present in the labels, with feasible counts, the routine returns
  features and labels of one and the same length, which is the sum of the target counts
  over the classes named in the mapping plus the sum of the original class counts over
  the classes of the labels that the mapping does not name.
\<close>

theorem sample_output_length:
  assumes "choice_contract rng"
    and "check_random_state rng (random_state self) glob = Inr g0"
    and "length X = length y"
    and "dom (sampling_target' self) \<subseteq> set y"
    and "feasible self y"
  shows "\<exists>out g'. sample rng self glob X y = Inr (out, g') \<and>
           length (X_resampled out) = length (y_resampled out) \<and>
           length (y_resampled out) =
             (\<Sum>c \<in> dom (sampling_target' self). the (sampling_target' self c)) +
             (\<Sum>c \<in> set y - dom (sampling_target' self). count_nonzero (eq_mask y c))"
proof -
  let ?m = "sampling_target' self"
  from index_blocks_feasible [OF assms(1,5), where cs = "unique y" and g = g0]
  obtain blocks g' where bl: "index_blocks rng self y (unique y) g0 = Inr (blocks, g')"
    by (auto simp: unique_props)
  from index_blocks_ok [OF assms(1) _ bl]
  have ok: "list_all2 (block_ok self y) (unique y) blocks"
    by (simp add: unique_props)
  let ?idx = "concat blocks"
  have sel: "index_selection rng self glob y = Inr (?idx, g')"
    using bl by (simp add: index_selection_blocks [OF assms(2)])
  have bound: "list_all (\<lambda>p. p < length y) ?idx"
    using blocks_bound [OF block_ok_subset [OF ok]] by (auto simp: list_all_iff)
  define out where "out = (if return_indices self
      then Resampled_indices (map (\<lambda>p. X ! p) ?idx) (map (\<lambda>p. y ! p) ?idx) ?idx
      else Resampled (map (\<lambda>p. X ! p) ?idx) (map (\<lambda>p. y ! p) ?idx))"
  have res: "sample rng self glob X y = Inr (out, g')"
    unfolding sample_Inr out_def using sel bound assms(3) by auto
  have lens: "length (X_resampled out) = length ?idx" "length (y_resampled out) = length ?idx"
    by (simp_all add: out_def)
  have "list_all2 (\<lambda>c block. length block = resolved_count self y c) (unique y) blocks"
    using ok by (rule list_all2_mono) (simp add: block_ok_def)
  then have "length ?idx = sum_list (map (resolved_count self y) (unique y))"
    by (rule blocks_length)
  also have "\<dots> = (\<Sum>c \<in> set y. resolved_count self y c)"
    using sum_list_distinct_conv_sum_set [OF unique_props(2), of "resolved_count self y" y]
    by (simp add: unique_props)
  also have "\<dots> = (\<Sum>c \<in> set y - dom ?m. resolved_count self y c) +
                   (\<Sum>c \<in> dom ?m. resolved_count self y c)"
    using assms(4) by (intro sum.subset_diff) simp_all
  also have "(\<Sum>c \<in> set y - dom ?m. resolved_count self y c) =
             (\<Sum>c \<in> set y - dom ?m. count_nonzero (eq_mask y c))"
    by (rule sum.cong) (auto simp: resolved_count_def split: option.splits)
  also have "(\<Sum>c \<in> dom ?m. resolved_count self y c) = (\<Sum>c \<in> dom ?m. the (?m c))"
    by (rule sum.cong) (auto simp: resolved_count_def split: option.splits)
  finally have "length ?idx = (\<Sum>c \<in> dom ?m. the (?m c)) +
      (\<Sum>c \<in> set y - dom ?m. count_nonzero (eq_mask y c))"
    by simp
  with res lens show ?thesis by auto
qed

theorem sample_output_length_witness:
  "sample lcg \<lparr>sampling_target' = [7 \<mapsto> 2, 3 \<mapsto> 1], return_indices = True,
       random_state = IntSeed 7, replacement = False\<rparr> 0
     [10, 11, 12, 13, 14, 15 :: int] [7, 3, 7, 5, 3, 7 :: int] =
     Inr (Resampled_indices [11, 13, 12, 10] [3, 5, 7, 7] [1, 3, 2, 0], 8) \<and>
   length [3, 5, 7, 7 :: int] =
     (\<Sum>c \<in> dom ([7 \<mapsto> 2, 3 \<mapsto> 1] :: int \<rightharpoonup> nat). the (([7 \<mapsto> 2, 3 \<mapsto> 1] :: int \<rightharpoonup> nat) c)) +
     (\<Sum>c \<in> set [7, 3, 7, 5, 3, 7 :: int] - dom ([7 \<mapsto> 2, 3 \<mapsto> 1] :: int \<rightharpoonup> nat).
        count_nonzero (eq_mask [7, 3, 7, 5, 3, 7] c))"
proof -
  let ?self = "\<lparr>sampling_target' = [7 \<mapsto> 2, 3 \<mapsto> 1], return_indices = True,
       random_state = IntSeed 7, replacement = False\<rparr> :: (int, nat) RandomUnderSampler"
  let ?X = "[10, 11, 12, 13, 14, 15 :: int]"
  let ?y = "[7, 3, 7, 5, 3, 7 :: int]"
  have run: "sample lcg ?self 0 ?X ?y =
      Inr (Resampled_indices [11, 13, 12, 10] [3, 5, 7, 7] [1, 3, 2, 0], 8)"
    by code_simp
  have seed: "check_random_state lcg (random_state ?self) 0 = Inr 7"
    by (simp add: lcg_def lcg_RandomState_def)
  have len: "length ?X = length ?y" by simp
  have dom: "dom (sampling_target' ?self) \<subseteq> set ?y" by simp
  have feas: "feasible ?self ?y"
    by (simp add: feasible_def count_nonzero_def eq_mask_def)
  from sample_output_length [OF lcg_contract seed len dom feas]
  obtain out g' where res: "sample lcg ?self 0 ?X ?y = Inr (out, g')"
    and size: "length (y_resampled out) =
      (\<Sum>c \<in> dom (sampling_target' ?self). the (sampling_target' ?self c)) +
      (\<Sum>c \<in> set ?y - dom (sampling_target' ?self). count_nonzero (eq_mask ?y c))"
    by blast
  from res run have "out = Resampled_indices [11, 13, 12, 10] [3, 5, 7, 7] [1, 3, 2, 0]"
    by simp
  with size have "length [3, 5, 7, 7 :: int] =
      (\<Sum>c \<in> dom (sampling_target' ?self). the (sampling_target' ?self c)) +
      (\<Sum>c \<in> set ?y - dom (sampling_target' ?self). count_nonzero (eq_mask ?y c))"
    by simp
  then have "length [3, 5, 7, 7 :: int] =
     (\<Sum>c \<in> dom ([7 \<mapsto> 2, 3 \<mapsto> 1] :: int \<rightharpoonup> nat). the (([7 \<mapsto> 2, 3 \<mapsto> 1] :: int \<rightharpoonup> nat) c)) +
     (\<Sum>c \<in> set ?y - dom ([7 \<mapsto> 2, 3 \<mapsto> 1] :: int \<rightharpoonup> nat).
        count_nonzero (eq_mask ?y c))"
    by (simp only: RandomUnderSampler.simps)
  with run show ?thesis by (rule_tac conjI)
qed

text \<open>
  C2. Without replacement and with feasible target counts, the Index Selection exists, has
  no duplicate, and each of its indices is below the number \<open>N\<close> of input rows.
\<close>

theorem index_selection_distinct_in_range:
  assumes "choice_contract rng"
    and "check_random_state rng (random_state self) glob = Inr g0"
    and "\<not> replacement self"
    and "feasible self y"
  shows "\<exists>idx g'. index_selection rng self glob y = Inr (idx, g') \<and>
           distinct idx \<and> (\<forall>i \<in> set idx. i < length y)"
proof -
  from index_blocks_feasible [OF assms(1,4), where cs = "unique y" and g = g0]
  obtain blocks g' where bl: "index_blocks rng self y (unique y) g0 = Inr (blocks, g')"
    by (auto simp: unique_props)
  from index_blocks_ok [OF assms(1) _ bl]
  have ok: "list_all2 (block_ok self y) (unique y) blocks"
    by (simp add: unique_props)
  have sel: "index_selection rng self glob y = Inr (concat blocks, g')"
    using bl by (simp add: index_selection_blocks [OF assms(2)])
  have "list_all2 (\<lambda>c block. set block \<subseteq> set (available y c) \<and> distinct block)
          (unique y) blocks"
    using ok by (rule list_all2_mono) (simp add: block_ok_def assms(3))
  then have "distinct (concat blocks)"
    by (rule blocks_distinct) (rule unique_props)
  moreover have "\<forall>i \<in> set (concat blocks). i < length y"
    using blocks_bound [OF block_ok_subset [OF ok]] by blast
  ultimately show ?thesis using sel by blast
qed

theorem index_selection_distinct_in_range_witness:
  "index_selection lcg \<lparr>sampling_target' = [7 \<mapsto> 2, 3 \<mapsto> 1], return_indices = True,
       random_state = IntSeed 7, replacement = False\<rparr> 0 [7, 3, 7, 5, 3, 7 :: int] =
     Inr ([1, 3, 2, 0], 8) \<and>
   distinct [1, 3, 2, 0 :: nat] \<and> list_all (\<lambda>i. i < length [7, 3, 7, 5, 3, 7 :: int]) [1, 3, 2, 0]"
proof -
  let ?self = "\<lparr>sampling_target' = [7 \<mapsto> 2, 3 \<mapsto> 1], return_indices = True,
       random_state = IntSeed 7, replacement = False\<rparr> :: (int, nat) RandomUnderSampler"
  let ?y = "[7, 3, 7, 5, 3, 7 :: int]"
  have run: "index_selection lcg ?self 0 ?y = Inr ([1, 3, 2, 0], 8)"
    by code_simp
  have seed: "check_random_state lcg (random_state ?self) 0 = Inr 7"
    by (simp add: lcg_def lcg_RandomState_def)
  have norep: "\<not> replacement ?self" by simp
  have feas: "feasible ?self ?y"
    by (simp add: feasible_def count_nonzero_def eq_mask_def)
  from index_selection_distinct_in_range [OF lcg_contract seed norep feas]
  obtain idx g' where sel: "index_selection lcg ?self 0 ?y = Inr (idx, g')"
    and props: "distinct idx" "\<forall>i \<in> set idx. i < length ?y"
    by blast
  from sel run have "idx = [1, 3, 2, 0]" by simp
  with props have "distinct [1, 3, 2, 0 :: nat]" "list_all (\<lambda>i. i < length ?y) [1, 3, 2, 0]"
    by (simp_all only: list_all_iff)
  with run show ?thesis by (intro conjI)
qed

text \<open>
  C3. The library is taken as a process whose seeding and draws are relations, so that
  the model itself does not make two runs agree. When the library is deterministic (the
  same seed gives the same generator; the same generator state and arguments give the
  same draw) and the sampler has an integer seed, any two runs on the same features,
  labels and configuration have the same outcome (the same features, labels and Index
  Selection, or the same exception), whatever the global generator is at the two calls;
  and a run on another representation of the same rows (the rows mapped by a function
  \<open>f\<close>, as from dense to sparse) gives the same labels and the same Index Selection,
  with the rows of the first result in that representation.
\<close>

theorem sample_run_deterministic:
  assumes "deterministic lib"
    and "random_state self = IntSeed s"
    and "sample_run lib self glob1 X y res1"
    and "sample_run lib self glob2 X y res2"
    and "sample_run lib self glob3 (map f X) y res3"
  shows "res2 = res1 \<and>
         res3 = (case res1 of
                   Inl e \<Rightarrow> Inl e
                 | Inr (out, g') \<Rightarrow> Inr (map_resampled f id out, g'))"
proof -
  from assms(3) obtain seeded1 looped1 where
    s1: "check_random_state_run lib (random_state self) glob1 seeded1"
    and r1: "case seeded1 of
               Inl e \<Rightarrow> res1 = Inl e
             | Inr g \<Rightarrow>
                 class_loop_run lib self y (unique y) ([], g) looped1 \<and>
                 res1 = (case looped1 of
                           Inl e \<Rightarrow> Inl e
                         | Inr (idx_under, g') \<Rightarrow> return_value self X y idx_under g')"
    by (rule sample_run_outcome)
  from assms(4) obtain seeded2 looped2 where
    s2: "check_random_state_run lib (random_state self) glob2 seeded2"
    and r2: "case seeded2 of
               Inl e \<Rightarrow> res2 = Inl e
             | Inr g \<Rightarrow>
                 class_loop_run lib self y (unique y) ([], g) looped2 \<and>
                 res2 = (case looped2 of
                           Inl e \<Rightarrow> Inl e
                         | Inr (idx_under, g') \<Rightarrow> return_value self X y idx_under g')"
    by (rule sample_run_outcome)
  from assms(5) obtain seeded3 looped3 where
    s3: "check_random_state_run lib (random_state self) glob3 seeded3"
    and r3: "case seeded3 of
               Inl e \<Rightarrow> res3 = Inl e
             | Inr g \<Rightarrow>
                 class_loop_run lib self y (unique y) ([], g) looped3 \<and>
                 res3 = (case looped3 of
                           Inl e \<Rightarrow> Inl e
                         | Inr (idx_under, g') \<Rightarrow>
                             return_value self (map f X) y idx_under g')"
    by (rule sample_run_outcome)
  have seeds: "seeded2 = seeded1" "seeded3 = seeded1"
    using s1 s2 s3 unfolding assms(2)
    by (auto intro: check_random_state_run_seeded [OF assms(1)])
  show ?thesis
  proof (cases seeded1)
    case (Inl e)
    with r1 r2 r3 seeds show ?thesis by simp
  next
    case (Inr g)
    with r1 r2 r3 seeds have
      l1: "class_loop_run lib self y (unique y) ([], g) looped1"
      and l2: "class_loop_run lib self y (unique y) ([], g) looped2"
      and l3: "class_loop_run lib self y (unique y) ([], g) looped3"
      by simp_all
    have loops: "looped2 = looped1" "looped3 = looped1"
      by (rule class_loop_run_deterministic [OF assms(1) l1 l2])
        (rule class_loop_run_deterministic [OF assms(1) l1 l3])
    from r1 r2 r3 seeds Inr loops show ?thesis
      by (simp add: return_value_map split: sum.splits prod.splits)
  qed
qed

theorem sample_run_deterministic_witness:
  "sample_run (process_of lcg) \<lparr>sampling_target' = [7 \<mapsto> 2, 3 \<mapsto> 1], return_indices = True,
       random_state = IntSeed 7, replacement = False\<rparr> 0
     [[1, 0], [0, 2], [3, 0], [0, 0], [5, 6], [0, 7 :: int]] [7, 3, 7, 5, 3, 7 :: int]
     (Inr (Resampled_indices [[0, 2], [0, 0], [3, 0], [1, 0]] [3, 5, 7, 7] [1, 3, 2, 0], 8)) \<and>
   sample_run (process_of lcg) \<lparr>sampling_target' = [7 \<mapsto> 2, 3 \<mapsto> 1], return_indices = True,
       random_state = IntSeed 7, replacement = False\<rparr> 5
     [[1, 0], [0, 2], [3, 0], [0, 0], [5, 6], [0, 7 :: int]] [7, 3, 7, 5, 3, 7 :: int]
     (Inr (Resampled_indices [[0, 2], [0, 0], [3, 0], [1, 0]] [3, 5, 7, 7] [1, 3, 2, 0], 8)) \<and>
   sample_run (process_of lcg) \<lparr>sampling_target' = [7 \<mapsto> 2, 3 \<mapsto> 1], return_indices = True,
       random_state = IntSeed 7, replacement = False\<rparr> 11
     (map sparse_row [[1, 0], [0, 2], [3, 0], [0, 0], [5, 6], [0, 7]]) [7, 3, 7, 5, 3, 7 :: int]
     (Inr (Resampled_indices [[(1, 2)], [], [(0, 3)], [(0, 1)]] [3, 5, 7, 7] [1, 3, 2, 0], 8))"
proof -
  let ?self = "\<lparr>sampling_target' = [7 \<mapsto> 2, 3 \<mapsto> 1], return_indices = True,
       random_state = IntSeed 7, replacement = False\<rparr> :: (int, nat) RandomUnderSampler"
  let ?X = "[[1, 0], [0, 2], [3, 0], [0, 0], [5, 6], [0, 7]] :: int list list"
  let ?y = "[7, 3, 7, 5, 3, 7 :: int]"
  let ?out = "Resampled_indices [[0, 2], [0, 0], [3, 0], [1, 0]] [3, 5, 7, 7] [1, 3, 2, 0]
    :: (int list, int) resampled"
  have "sample lcg ?self 0 ?X ?y = Inr (?out, 8)"
    by code_simp
  then have run1: "sample_run (process_of lcg) ?self 0 ?X ?y (Inr (?out, 8))"
    by (simp only: sample_run_process_of)
  have run2: "sample_run (process_of lcg) ?self 5 ?X ?y (sample lcg ?self 5 ?X ?y)"
    by (simp only: sample_run_process_of)
  have run3: "sample_run (process_of lcg) ?self 11 (map sparse_row ?X) ?y
      (sample lcg ?self 11 (map sparse_row ?X) ?y)"
    by (simp only: sample_run_process_of)
  have seed: "random_state ?self = IntSeed 7" by simp
  from sample_run_deterministic [OF deterministic_process_of seed run1 run2 run3]
  have same: "sample lcg ?self 5 ?X ?y = Inr (?out, 8)"
    and other: "sample lcg ?self 11 (map sparse_row ?X) ?y =
      Inr (map_resampled sparse_row id ?out, 8)"
    by simp_all
  from other have "sample lcg ?self 11 (map sparse_row ?X) ?y =
      Inr (Resampled_indices [[(1, 2)], [], [(0, 3)], [(0, 1)]] [3, 5, 7, 7] [1, 3, 2, 0], 8)"
    by (simp add: sparse_row_def)
  with run1 run2 run3 same show ?thesis by (simp only: simp_thms)
qed

text \<open>The hypotheses are needed. Over the library \<open>any_draw\<close>, which is not
  deterministic, the same call has two outcomes; and without an integer seed the outcome
  depends on the state of the global generator.\<close>

lemma any_draw_two_results:
  "sample_run any_draw \<lparr>sampling_target' = [0 \<mapsto> 1], return_indices = True,
       random_state = IntSeed 1, replacement = False\<rparr> () [10, 20 :: int] [0, 0 :: int]
     (Inr (Resampled_indices [10] [0] [0], ())) \<and>
   sample_run any_draw \<lparr>sampling_target' = [0 \<mapsto> 1], return_indices = True,
       random_state = IntSeed 1, replacement = False\<rparr> () [10, 20 :: int] [0, 0 :: int]
     (Inr (Resampled_indices [20] [0] [1], ()))"
proof -
  let ?self = "\<lparr>sampling_target' = [0 \<mapsto> 1], return_indices = True,
       random_state = IntSeed 1, replacement = False\<rparr> :: (int, unit) RandomUnderSampler"
  let ?y = "[0, 0 :: int]"
  have seeded: "check_random_state_run any_draw (random_state ?self) () (Inr ())"
    by (simp add: check_random_state_run.from_seed any_draw_def)
  have classes: "unique ?y = [0]"
    by (simp add: unique_def)
  have positions: "flatnonzero (eq_mask ?y 0) = [0, 1]"
    by code_simp
  have population: "range_list (count_nonzero (eq_mask ?y 0)) = [0, 1]"
    by code_simp
  have run: "sample_run any_draw ?self () [10, 20 :: int] ?y
      (return_value ?self [10, 20] ?y [p] ())" if "p < 2" for p
  proof -
    have "\<exists>ps. (Inr (map (\<lambda>p. [0, 1] ! p) [p], ()) :: error + nat list \<times> unit) =
              Inr (map (\<lambda>p. [0, 1] ! p) ps, ()) \<and> length ps = 1 \<and>
            list_all (\<lambda>p. p < length [0, 1 :: nat]) ps \<and> (False \<or> distinct ps)"
      using that by (intro exI [of _ "[p]"]) simp
    then have "draws any_draw () [0, 1] 1 False (Inr (map (\<lambda>p. [0, 1] ! p) [p], ()))"
      by (simp add: any_draw_def)
    moreover have "map (\<lambda>p. [0, 1 :: nat] ! p) [p] = [p]"
      using that by (cases p) auto
    ultimately have draw: "draws any_draw () (range_list (count_nonzero (eq_mask ?y 0))) 1
        (replacement ?self) (Inr ([p], ()))"
      by (simp add: population)
    have pick: "getitem (flatnonzero (eq_mask ?y 0)) (Index_array [p]) = Inr [p]"
      unfolding positions using that by (cases p) (auto simp: index_array_def)
    have target: "sampling_target' ?self 0 = Some 1" by simp
    from loop_body_run.sub_sampled [OF target draw pick, of "[]"]
    have "loop_body_run any_draw ?self ?y 0 ([], ()) (Inr ([p], ()))" by simp
    then have "class_loop_run any_draw ?self ?y (unique ?y) ([], ()) (Inr ([p], ()))"
      unfolding classes by (rule class_loop_run.next_class) (rule class_loop_run.finished)
    with seeded show ?thesis
      by (rule sample_run.returns)
  qed
  from run [of 0] run [of 1] show ?thesis
    by (simp add: return_value_def safe_indexing_def index_array_def)
qed

lemma none_seed_depends_on_global:
  "sample_run (process_of lcg) \<lparr>sampling_target' = [0 \<mapsto> 1], return_indices = True,
       random_state = NoneSeed, replacement = False\<rparr> 0 [10, 20 :: int] [0, 0 :: int]
     (Inr (Resampled_indices [20] [0] [1], 3)) \<and>
   sample_run (process_of lcg) \<lparr>sampling_target' = [0 \<mapsto> 1], return_indices = True,
       random_state = NoneSeed, replacement = False\<rparr> 1 [10, 20 :: int] [0, 0 :: int]
     (Inr (Resampled_indices [10] [0] [0], 8))"
  unfolding sample_run_process_of by code_simp

text \<open>
  C4. When the routine returns and a class of the labels is not a key of the sampling
  target mapping, the indices of the Index Selection that point to rows of this class are
  exactly the positions of the class, each once and in ascending order; the output rows
  and labels are the input rows and labels at the Index Selection.
\<close>

theorem untargeted_class_kept_whole:
  assumes "sample rng self glob X y = Inr (out, g')"
    and "c \<in> set y"
    and "sampling_target' self c = None"
  shows "\<exists>idx. index_selection rng self glob y = Inr (idx, g') \<and>
           X_resampled out = map (\<lambda>i. X ! i) idx \<and>
           y_resampled out = map (\<lambda>i. y ! i) idx \<and>
           filter (\<lambda>i. y ! i = c) idx = filter (\<lambda>i. y ! i = c) [0..<length y]"
proof -
  from assms(1) obtain idx where sel: "index_selection rng self glob y = Inr (idx, g')"
    and out: "X_resampled out = map (\<lambda>i. X ! i) idx" "y_resampled out = map (\<lambda>i. y ! i) idx"
    by (auto simp: sample_Inr split: if_splits)
  from sel obtain g0 blocks where
    bl: "index_blocks rng self y (unique y) g0 = Inr (blocks, g')" and idx: "idx = concat blocks"
    by (rule index_selection_Inr)
  from assms(2) have "c \<in> set (unique y)" by (simp add: unique_props)
  from index_blocks_untargeted [OF bl this assms(3)]
  have "(c, available y c) \<in> set (zip (unique y) blocks)" .
  from blocks_filter_own [OF index_blocks_subset [OF bl] unique_props(2) this]
  have "filter (\<lambda>i. y ! i = c) idx = filter (\<lambda>i. y ! i = c) [0..<length y]"
    by (simp add: idx available_def)
  with sel out show ?thesis by blast
qed

theorem untargeted_class_kept_whole_witness:
  "sample lcg \<lparr>sampling_target' = [7 \<mapsto> 3, 3 \<mapsto> 1], return_indices = False,
       random_state = IntSeed 3, replacement = True\<rparr> 0
     [10, 11, 12, 13, 14, 15, 16 :: int] [7, 5, 3, 7, 5, 3, 5 :: int] =
     Inr (Resampled [12, 11, 14, 16, 13, 10, 13] [3, 5, 5, 5, 7, 7, 7], 7) \<and>
   index_selection lcg \<lparr>sampling_target' = [7 \<mapsto> 3, 3 \<mapsto> 1], return_indices = False,
       random_state = IntSeed 3, replacement = True\<rparr> 0 [7, 5, 3, 7, 5, 3, 5 :: int] =
     Inr ([2, 1, 4, 6, 3, 0, 3], 7) \<and>
   filter (\<lambda>i. [7, 5, 3, 7, 5, 3, 5 :: int] ! i = 5) [2, 1, 4, 6, 3, 0, 3] =
     filter (\<lambda>i. [7, 5, 3, 7, 5, 3, 5 :: int] ! i = 5) [0..<length [7, 5, 3, 7, 5, 3, 5 :: int]]"
proof -
  let ?self = "\<lparr>sampling_target' = [7 \<mapsto> 3, 3 \<mapsto> 1], return_indices = False,
       random_state = IntSeed 3, replacement = True\<rparr> :: (int, nat) RandomUnderSampler"
  let ?X = "[10, 11, 12, 13, 14, 15, 16 :: int]"
  let ?y = "[7, 5, 3, 7, 5, 3, 5 :: int]"
  have run: "sample lcg ?self 0 ?X ?y = Inr (Resampled [12, 11, 14, 16, 13, 10, 13] [3, 5, 5, 5, 7, 7, 7], 7)"
    by code_simp
  have sel: "index_selection lcg ?self 0 ?y = Inr ([2, 1, 4, 6, 3, 0, 3], 7)"
    by code_simp
  have present: "5 \<in> set ?y" by simp
  have untargeted: "sampling_target' ?self 5 = None" by simp
  from untargeted_class_kept_whole [OF run present untargeted] sel
  have "filter (\<lambda>i. ?y ! i = 5) [2, 1, 4, 6, 3, 0, 3] = filter (\<lambda>i. ?y ! i = 5) [0..<length ?y]"
    by (elim exE conjE) (simp only: sum.inject prod.inject)
  with run sel show ?thesis by (intro conjI)
qed

text \<open>
  C5. Without replacement, when the sampling target mapping requests for a class of the
  labels more samples than the class has, the routine raises the exception of
  \<^verbatim>\<open>choice\<close> for a sample larger than the population (the sampling error of the
  specification): it returns nothing, neither a clamped nor a partial result.
\<close>

theorem oversized_target_fails:
  assumes "choice_contract rng"
    and "check_random_state rng (random_state self) glob = Inr g0"
    and "\<not> replacement self"
    and "c \<in> set y"
    and "sampling_target' self c = Some n"
    and "count_nonzero (eq_mask y c) < n"
  shows "sample rng self glob X y = Inl ValueError_larger_sample"
proof -
  from assms(4) have "c \<in> set (unique y)" by (simp add: unique_props)
  from index_blocks_infeasible [OF assms(1,5,3,6) _ this, of g0]
  have "index_blocks rng self y (unique y) g0 = Inl ValueError_larger_sample"
    by (simp add: unique_props)
  then have "index_selection rng self glob y = Inl ValueError_larger_sample"
    by (simp add: index_selection_blocks [OF assms(2)])
  then show ?thesis by (simp add: sample_def)
qed

theorem oversized_target_fails_witness:
  "count_nonzero (eq_mask [7, 5, 3, 7, 5, 3, 5 :: int] 5) = 3 \<and>
   sample lcg \<lparr>sampling_target' = [7 \<mapsto> 2, 5 \<mapsto> 4], return_indices = False,
       random_state = IntSeed 6, replacement = False\<rparr> 0
     [10, 11, 12, 13, 14, 15, 16 :: int] [7, 5, 3, 7, 5, 3, 5 :: int] =
     Inl ValueError_larger_sample"
proof -
  let ?self = "\<lparr>sampling_target' = [7 \<mapsto> 2, 5 \<mapsto> 4], return_indices = False,
       random_state = IntSeed 6, replacement = False\<rparr> :: (int, nat) RandomUnderSampler"
  let ?y = "[7, 5, 3, 7, 5, 3, 5 :: int]"
  have count: "count_nonzero (eq_mask ?y 5) = 3"
    by (simp add: count_nonzero_def eq_mask_def)
  have seed: "check_random_state lcg (random_state ?self) 0 = Inr 6"
    by (simp add: lcg_def lcg_RandomState_def)
  have norep: "\<not> replacement ?self" by simp
  have present: "5 \<in> set ?y" by simp
  have target: "sampling_target' ?self 5 = Some 4" by simp
  have over: "count_nonzero (eq_mask ?y 5) < 4" by (simp add: count)
  from oversized_target_fails [OF lcg_contract seed norep present target over] count
  show ?thesis by (intro conjI)
qed

text \<open>
  C6, as amended. A key of the sampling target mapping that is no class of the labels is
  never looked up: the routine raises no exception for it, and its result is the result
  with this key removed from the mapping. (Rejecting such a mapping is left to the
  resolver of the sampling target, before the routine runs.)
\<close>

theorem absent_class_ignored:
  assumes "c \<notin> set y"
  shows "sample rng self glob X y =
         sample rng (self\<lparr>sampling_target' := (sampling_target' self)(c := None)\<rparr>) glob X y"
proof -
  let ?self' = "self\<lparr>sampling_target' := (sampling_target' self)(c := None)\<rparr>"
  have loop: "class_loop rng self y (unique y) st = class_loop rng ?self' y (unique y) st" for st
    by (rule class_loop_cong) (use assms in \<open>auto simp: unique_props\<close>)
  have "index_selection rng self glob y = index_selection rng ?self' glob y"
    by (simp add: index_selection_def loop split: sum.splits)
  then show ?thesis by (simp add: sample_def split: sum.splits prod.splits)
qed

theorem absent_class_ignored_witness:
  "(2 :: int) \<notin> set [0, 0, 1] \<and>
   sample lcg \<lparr>sampling_target' = [0 \<mapsto> 1, 2 \<mapsto> 1], return_indices = True,
       random_state = IntSeed 42, replacement = False\<rparr> 0 [10, 20, 30 :: int] [0, 0, 1 :: int] =
     Inr (Resampled_indices [20, 30] [0, 1] [1, 2], 5)"
proof -
  let ?self = "\<lparr>sampling_target' = [0 \<mapsto> 1, 2 \<mapsto> 1], return_indices = True,
       random_state = IntSeed 42, replacement = False\<rparr> :: (int, nat) RandomUnderSampler"
  have absent: "(2 :: int) \<notin> set [0, 0, 1]" by simp
  have run: "sample lcg (?self\<lparr>sampling_target' := (sampling_target' ?self)(2 := None)\<rparr>) 0
      [10, 20, 30 :: int] [0, 0, 1 :: int] = Inr (Resampled_indices [20, 30] [0, 1] [1, 2], 5)"
    by code_simp
  note absent_class_ignored [OF absent, of lcg ?self 0 "[10, 20, 30]"]
  also note run
  finally show ?thesis using absent by (intro conjI)
qed

text \<open>The claim as stated fails: with the class \<open>2\<close> targeted and absent from the labels,
  the routine returns all the rows.\<close>

theorem zero_count_class_no_error:
  "count_nonzero (eq_mask [0, 0, 1 :: int] 2) = 0 \<and>
   sample lcg \<lparr>sampling_target' = [2 \<mapsto> 1], return_indices = False,
       random_state = IntSeed 42, replacement = False\<rparr> 0 [10, 20, 30 :: int] [0, 0, 1 :: int] =
     Inr (Resampled [10, 20, 30] [0, 0, 1], 10)"
  by code_simp

text \<open>
  C7. When the routine returns, the Index Selection is the concatenation of one block per
  class, the classes taken in ascending order of the label values present in the labels.
  The block of a class kept whole is the list of its positions in ascending order; the
  block of a sub-sampled class is the list of its positions at the relative positions
  that \<^verbatim>\<open>choice\<close> returned, in the order in which they were returned (no sorting). The
  output rows and labels follow this order.
\<close>

theorem output_order_blocks:
  assumes "check_random_state rng (random_state self) glob = Inr g0"
    and "sample rng self glob X y = Inr (out, g')"
  shows "\<exists>blocks.
           index_blocks rng self y (sorted_list_of_set (set y)) g0 = Inr (blocks, g') \<and>
           X_resampled out = map (\<lambda>i. X ! i) (concat blocks) \<and>
           y_resampled out = map (\<lambda>i. y ! i) (concat blocks) \<and>
           returned_indices out = (if return_indices self then Some (concat blocks) else None) \<and>
           list_all2 (\<lambda>c block.
               case sampling_target' self c of
                 None \<Rightarrow> block = available y c
               | Some n \<Rightarrow>
                   (\<exists>g1 g2 drawn.
                      choice rng g1 (range_list (length (available y c))) n (replacement self) =
                        Inr (drawn, g2) \<and>
                      block = map (\<lambda>p. available y c ! p) drawn))
             (sorted_list_of_set (set y)) blocks"
proof -
  from assms(2) obtain idx where sel: "index_selection rng self glob y = Inr (idx, g')"
    and out: "out = (if return_indices self
               then Resampled_indices (map (\<lambda>p. X ! p) idx) (map (\<lambda>p. y ! p) idx) idx
               else Resampled (map (\<lambda>p. X ! p) idx) (map (\<lambda>p. y ! p) idx))"
    unfolding sample_Inr by blast
  from sel assms(1) obtain blocks where
    bl: "index_blocks rng self y (unique y) g0 = Inr (blocks, g')" and idx: "idx = concat blocks"
    by (auto simp: index_selection_blocks split: sum.splits prod.splits)
  from out idx have "X_resampled out = map (\<lambda>i. X ! i) (concat blocks)"
    "y_resampled out = map (\<lambda>i. y ! i) (concat blocks)"
    "returned_indices out = (if return_indices self then Some (concat blocks) else None)"
    by (simp_all split: if_splits)
  with bl index_blocks_shape [OF bl] show ?thesis
    unfolding unique_eq by blast
qed

theorem output_order_blocks_witness:
  "sample lcg \<lparr>sampling_target' = [7 \<mapsto> 2, 3 \<mapsto> 1], return_indices = True,
       random_state = IntSeed 7, replacement = False\<rparr> 0
     [10, 11, 12, 13, 14, 15 :: int] [7, 3, 7, 5, 3, 7 :: int] =
     Inr (Resampled_indices [11, 13, 12, 10] [3, 5, 7, 7] [1, 3, 2, 0], 8) \<and>
   sorted_list_of_set (set [7, 3, 7, 5, 3, 7 :: int]) = [3, 5, 7] \<and>
   index_blocks lcg \<lparr>sampling_target' = [7 \<mapsto> 2, 3 \<mapsto> 1], return_indices = True,
       random_state = IntSeed 7, replacement = False\<rparr> [7, 3, 7, 5, 3, 7 :: int]
     (sorted_list_of_set (set [7, 3, 7, 5, 3, 7 :: int])) 7 = Inr ([[1], [3], [2, 0]], 8) \<and>
   [11, 13, 12, 10] = map (\<lambda>i. [10, 11, 12, 13, 14, 15 :: int] ! i) (concat [[1], [3], [2, 0]]) \<and>
   [3, 5, 7, 7] = map (\<lambda>i. [7, 3, 7, 5, 3, 7 :: int] ! i) (concat [[1], [3], [2, 0]]) \<and>
   \<not> sorted [2, 0 :: nat]"
proof -
  let ?self = "\<lparr>sampling_target' = [7 \<mapsto> 2, 3 \<mapsto> 1], return_indices = True,
       random_state = IntSeed 7, replacement = False\<rparr> :: (int, nat) RandomUnderSampler"
  let ?X = "[10, 11, 12, 13, 14, 15 :: int]"
  let ?y = "[7, 3, 7, 5, 3, 7 :: int]"
  let ?out = "Resampled_indices [11, 13, 12, 10] [3, 5, 7, 7] [1, 3, 2, 0] :: (int, int) resampled"
  have run: "sample lcg ?self 0 ?X ?y = Inr (?out, 8)"
    by code_simp
  have classes: "sorted_list_of_set (set ?y) = [3, 5, 7]"
    by code_simp
  have blocks: "index_blocks lcg ?self ?y (sorted_list_of_set (set ?y)) 7 =
      Inr ([[1], [3], [2, 0]], 8)"
    by code_simp
  have seed: "check_random_state lcg (random_state ?self) 0 = Inr 7"
    by (simp add: lcg_def lcg_RandomState_def)
  from output_order_blocks [OF seed run] obtain bs where
    bs: "index_blocks lcg ?self ?y (sorted_list_of_set (set ?y)) 7 = Inr (bs, 8)"
    and X: "X_resampled ?out = map (\<lambda>i. ?X ! i) (concat bs)"
    and y: "y_resampled ?out = map (\<lambda>i. ?y ! i) (concat bs)"
    by blast
  from bs blocks have "bs = [[1], [3], [2, 0]]" by simp
  with X y have "[11, 13, 12, 10] = map (\<lambda>i. ?X ! i) (concat [[1], [3], [2, 0]])"
    "[3, 5, 7, 7] = map (\<lambda>i. ?y ! i) (concat [[1], [3], [2, 0]])"
    by (simp_all only: X_resampled.simps y_resampled.simps)
  moreover have "\<not> sorted [2, 0 :: nat]" by simp
  ultimately show ?thesis using run classes blocks by (intro conjI)
qed

text \<open>
  C8. When the routine returns, the output features and labels have the length of the
  Index Selection and are parallel to it: row \<open>i\<close> of the output is the input row at
  the \<open>i\<close>-th selected index, and so is the label. The Index Selection is part of the
  result exactly when \<^verbatim>\<open>return_indices\<close> is set; otherwise the result is the pair of
  the features and the labels.
\<close>

theorem returned_indices_parallel:
  assumes "sample rng self glob X y = Inr (out, g')"
  shows "\<exists>idx. index_selection rng self glob y = Inr (idx, g') \<and>
           length (X_resampled out) = length idx \<and>
           length (y_resampled out) = length idx \<and>
           (\<forall>i < length idx. idx ! i < length X \<and> idx ! i < length y \<and>
              X_resampled out ! i = X ! (idx ! i) \<and> y_resampled out ! i = y ! (idx ! i)) \<and>
           out = (if return_indices self
                  then Resampled_indices (X_resampled out) (y_resampled out) idx
                  else Resampled (X_resampled out) (y_resampled out))"
proof -
  from assms obtain idx where sel: "index_selection rng self glob y = Inr (idx, g')"
    and bX: "list_all (\<lambda>p. p < length X) idx" and bY: "list_all (\<lambda>p. p < length y) idx"
    and out: "out = (if return_indices self
               then Resampled_indices (map (\<lambda>p. X ! p) idx) (map (\<lambda>p. y ! p) idx) idx
               else Resampled (map (\<lambda>p. X ! p) idx) (map (\<lambda>p. y ! p) idx))"
    unfolding sample_Inr by blast
  from out have X: "X_resampled out = map (\<lambda>p. X ! p) idx"
    and y: "y_resampled out = map (\<lambda>p. y ! p) idx"
    by (simp_all split: if_splits)
  have "\<forall>i < length idx. idx ! i < length X \<and> idx ! i < length y \<and>
      X_resampled out ! i = X ! (idx ! i) \<and> y_resampled out ! i = y ! (idx ! i)"
    using bX bY X y by (simp add: list_all_length)
  moreover have "out = (if return_indices self
      then Resampled_indices (X_resampled out) (y_resampled out) idx
      else Resampled (X_resampled out) (y_resampled out))"
    using out by (simp split: if_splits)
  ultimately show ?thesis using sel X y by auto
qed

theorem returned_indices_parallel_witness:
  "sample lcg \<lparr>sampling_target' = [7 \<mapsto> 2, 3 \<mapsto> 1], return_indices = True,
       random_state = IntSeed 7, replacement = False\<rparr> 0
     [10, 11, 12, 13, 14, 15 :: int] [7, 3, 7, 5, 3, 7 :: int] =
     Inr (Resampled_indices [11, 13, 12, 10] [3, 5, 7, 7] [1, 3, 2, 0], 8) \<and>
   sample lcg \<lparr>sampling_target' = [7 \<mapsto> 2, 3 \<mapsto> 1], return_indices = False,
       random_state = IntSeed 7, replacement = False\<rparr> 0
     [10, 11, 12, 13, 14, 15 :: int] [7, 3, 7, 5, 3, 7 :: int] =
     Inr (Resampled [11, 13, 12, 10] [3, 5, 7, 7], 8) \<and>
   list_all (\<lambda>i. [11, 13, 12, 10] ! i = [10, 11, 12, 13, 14, 15 :: int] ! ([1, 3, 2, 0] ! i) \<and>
                 [3, 5, 7, 7] ! i = [7, 3, 7, 5, 3, 7 :: int] ! ([1, 3, 2, 0] ! i))
     [0..<length [1, 3, 2, 0 :: nat]]"
proof -
  let ?self = "\<lparr>sampling_target' = [7 \<mapsto> 2, 3 \<mapsto> 1], return_indices = True,
       random_state = IntSeed 7, replacement = False\<rparr> :: (int, nat) RandomUnderSampler"
  let ?X = "[10, 11, 12, 13, 14, 15 :: int]"
  let ?y = "[7, 3, 7, 5, 3, 7 :: int]"
  let ?out = "Resampled_indices [11, 13, 12, 10] [3, 5, 7, 7] [1, 3, 2, 0] :: (int, int) resampled"
  have run: "sample lcg ?self 0 ?X ?y = Inr (?out, 8)"
    by code_simp
  have run': "sample lcg \<lparr>sampling_target' = [7 \<mapsto> 2, 3 \<mapsto> 1], return_indices = False,
       random_state = IntSeed 7, replacement = False\<rparr> 0 ?X ?y =
      Inr (Resampled [11, 13, 12, 10] [3, 5, 7, 7], 8)"
    by code_simp
  have sel: "index_selection lcg ?self 0 ?y = Inr ([1, 3, 2, 0], 8)"
    by code_simp
  from returned_indices_parallel [OF run] obtain idx where
    sel': "index_selection lcg ?self 0 ?y = Inr (idx, 8)"
    and par: "\<forall>i < length idx. X_resampled ?out ! i = ?X ! (idx ! i) \<and>
                y_resampled ?out ! i = ?y ! (idx ! i)"
    by blast
  from sel sel' have "idx = [1, 3, 2, 0]" by simp
  with par have "list_all (\<lambda>i. [11, 13, 12, 10] ! i = ?X ! ([1, 3, 2, 0] ! i) \<and>
                   [3, 5, 7, 7] ! i = ?y ! ([1, 3, 2, 0] ! i)) [0..<length [1, 3, 2, 0 :: nat]]"
    unfolding list_all_iff by (simp only: X_resampled.simps y_resampled.simps set_upt atLeastLessThan_iff) simp
  with run run' show ?thesis by (intro conjI)
qed

text \<open>
  C9. Every index that the iteration of a class appends to the Index Selection is a
  position of the labels whose label is this class. Hence, when the routine returns, the
  number of output labels of a class of the labels is its target count when the class is
  targeted, and its original count when it is not.
\<close>

theorem block_label_purity:
  assumes "choice_contract rng"
    and "sample rng self glob X y = Inr (out, g')"
    and "c \<in> set y"
  shows "(\<forall>idx_under g idx_under' g1.
            loop_body rng self y c (idx_under, g) = Inr (idx_under', g1) \<longrightarrow>
            (\<exists>block. idx_under' = idx_under @ block \<and>
               (\<forall>i \<in> set block. i < length y \<and> y ! i = c))) \<and>
         count_nonzero (eq_mask (y_resampled out) c) =
           (case sampling_target' self c of
              Some n \<Rightarrow> n
            | None \<Rightarrow> count_nonzero (eq_mask y c))"
proof (rule conjI)
  show "\<forall>idx_under g idx_under' g1.
          loop_body rng self y c (idx_under, g) = Inr (idx_under', g1) \<longrightarrow>
          (\<exists>block. idx_under' = idx_under @ block \<and>
             (\<forall>i \<in> set block. i < length y \<and> y ! i = c))"
  proof (intro allI impI)
    fix idx_under g idx_under' g1
    assume "loop_body rng self y c (idx_under, g) = Inr (idx_under', g1)"
    then obtain block where b: "class_block rng self y c g = Inr (block, g1)"
      and eq: "idx_under' = idx_under @ block"
      by (auto simp: loop_body_block split: sum.splits prod.splits)
    from class_block_subset [OF b] have "\<forall>i \<in> set block. i < length y \<and> y ! i = c"
      by (auto dest: available_bound)
    with eq show "\<exists>block. idx_under' = idx_under @ block \<and>
        (\<forall>i \<in> set block. i < length y \<and> y ! i = c)"
      by blast
  qed
next
  from assms(2) obtain idx where sel: "index_selection rng self glob y = Inr (idx, g')"
    and out: "y_resampled out = map (\<lambda>i. y ! i) idx"
    by (auto simp: sample_Inr split: if_splits)
  from selected_of_class [OF assms(1) sel assms(3)]
  have "length (filter (\<lambda>i. y ! i = c) idx) = resolved_count self y c"
    by (simp add: block_ok_def)
  then show "count_nonzero (eq_mask (y_resampled out) c) =
      (case sampling_target' self c of Some n \<Rightarrow> n | None \<Rightarrow> count_nonzero (eq_mask y c))"
    by (simp add: out count_nonzero_selected resolved_count_def)
qed

theorem block_label_purity_witness:
  "sample lcg \<lparr>sampling_target' = [7 \<mapsto> 2, 3 \<mapsto> 1], return_indices = True,
       random_state = IntSeed 7, replacement = False\<rparr> 0
     [10, 11, 12, 13, 14, 15 :: int] [7, 3, 7, 5, 3, 7 :: int] =
     Inr (Resampled_indices [11, 13, 12, 10] [3, 5, 7, 7] [1, 3, 2, 0], 8) \<and>
   count_nonzero (eq_mask [7, 3, 7, 5, 3, 7 :: int] 7) = 3 \<and>
   count_nonzero (eq_mask [3, 5, 7, 7 :: int] 7) = 2 \<and>
   loop_body lcg \<lparr>sampling_target' = [7 \<mapsto> 2, 3 \<mapsto> 1], return_indices = True,
       random_state = IntSeed 7, replacement = False\<rparr> [7, 3, 7, 5, 3, 7 :: int] 7 ([1, 3], 6) =
     Inr ([1, 3] @ [2, 0], 8) \<and>
   list_all (\<lambda>i. i < length [7, 3, 7, 5, 3, 7 :: int] \<and> [7, 3, 7, 5, 3, 7 :: int] ! i = 7) [2, 0]"
proof -
  let ?self = "\<lparr>sampling_target' = [7 \<mapsto> 2, 3 \<mapsto> 1], return_indices = True,
       random_state = IntSeed 7, replacement = False\<rparr> :: (int, nat) RandomUnderSampler"
  let ?X = "[10, 11, 12, 13, 14, 15 :: int]"
  let ?y = "[7, 3, 7, 5, 3, 7 :: int]"
  let ?out = "Resampled_indices [11, 13, 12, 10] [3, 5, 7, 7] [1, 3, 2, 0] :: (int, int) resampled"
  have run: "sample lcg ?self 0 ?X ?y = Inr (?out, 8)"
    by code_simp
  have before: "count_nonzero (eq_mask ?y 7) = 3"
    by (simp add: count_nonzero_def eq_mask_def)
  have step: "loop_body lcg ?self ?y 7 ([1, 3], 6) = Inr ([1, 3] @ [2, 0], 8)"
    by code_simp
  have present: "7 \<in> set ?y" by simp
  note purity = block_label_purity [OF lcg_contract run present]
  from purity have "count_nonzero (eq_mask (y_resampled ?out) 7) =
      (case sampling_target' ?self 7 of Some n \<Rightarrow> n | None \<Rightarrow> count_nonzero (eq_mask ?y 7))"
    by (rule conjunct2)
  then have after: "count_nonzero (eq_mask [3, 5, 7, 7 :: int] 7) = 2"
    by simp
  from purity step obtain block where
    "[1, 3] @ [2, 0] = [1, 3] @ block" and "\<forall>i \<in> set block. i < length ?y \<and> ?y ! i = 7"
    by blast
  then have "list_all (\<lambda>i. i < length ?y \<and> ?y ! i = 7) [2, 0]"
    by (simp only: same_append_eq list_all_iff)
  with run before after step show ?thesis by (intro conjI)
qed

text \<open>
  C10. Without replacement, when the target count of a class equals the number of its
  samples, the selected indices of this class are a permutation of all its positions: no
  duplicate, no omission, possibly another order.
\<close>

theorem exact_target_is_permutation:
  assumes "choice_contract rng"
    and "\<not> replacement self"
    and "index_selection rng self glob y = Inr (idx, g')"
    and "c \<in> set y"
    and "sampling_target' self c = Some (count_nonzero (eq_mask y c))"
  shows "mset (filter (\<lambda>i. y ! i = c) idx) = mset (flatnonzero (eq_mask y c)) \<and>
         distinct (filter (\<lambda>i. y ! i = c) idx) \<and>
         set (filter (\<lambda>i. y ! i = c) idx) = set (flatnonzero (eq_mask y c))"
proof -
  let ?sel = "filter (\<lambda>i. y ! i = c) idx"
  let ?av = "available y c"
  from selected_of_class [OF assms(1,3,4)] assms(2,5)
  have sub: "set ?sel \<subseteq> set ?av" and len: "length ?sel = length ?av" and dis: "distinct ?sel"
    by (simp_all add: block_ok_def resolved_count_def count_nonzero_eq_mask)
  have "card (set ?sel) = length ?sel"
    by (rule distinct_card [OF dis])
  also note len
  also have "length ?av = card (set ?av)"
    by (rule distinct_card [OF distinct_available, symmetric])
  finally have "card (set ?sel) = card (set ?av)" .
  with sub have sets: "set ?sel = set ?av"
    by (intro card_subset_eq) (rule finite_set)
  then have "mset ?sel = mset ?av"
    by (simp only: set_eq_iff_mset_eq_distinct [OF dis distinct_available])
  with sets dis show ?thesis
    unfolding flatnonzero_eq_mask by (intro conjI)
qed

theorem exact_target_is_permutation_witness:
  "index_selection lcg \<lparr>sampling_target' = [7 \<mapsto> 3, 3 \<mapsto> 1], return_indices = True,
       random_state = IntSeed 4, replacement = False\<rparr> 0 [7, 3, 7, 5, 3, 7 :: int] =
     Inr ([4, 3, 0, 5, 2], 8) \<and>
   filter (\<lambda>i. [7, 3, 7, 5, 3, 7 :: int] ! i = 7) [4, 3, 0, 5, 2] = [0, 5, 2] \<and>
   flatnonzero (eq_mask [7, 3, 7, 5, 3, 7 :: int] 7) = [0, 2, 5] \<and>
   mset [0, 5, 2 :: nat] = mset [0, 2, 5]"
proof -
  let ?self = "\<lparr>sampling_target' = [7 \<mapsto> 3, 3 \<mapsto> 1], return_indices = True,
       random_state = IntSeed 4, replacement = False\<rparr> :: (int, nat) RandomUnderSampler"
  let ?y = "[7, 3, 7, 5, 3, 7 :: int]"
  have sel: "index_selection lcg ?self 0 ?y = Inr ([4, 3, 0, 5, 2], 8)"
    by code_simp
  have chosen: "filter (\<lambda>i. ?y ! i = 7) [4, 3, 0, 5, 2] = [0, 5, 2]"
    by simp
  have all: "flatnonzero (eq_mask ?y 7) = [0, 2, 5]"
    by code_simp
  have norep: "\<not> replacement ?self" by simp
  have present: "7 \<in> set ?y" by simp
  have exact: "sampling_target' ?self 7 = Some (count_nonzero (eq_mask ?y 7))"
    by (simp add: count_nonzero_def eq_mask_def)
  from exact_target_is_permutation [OF lcg_contract norep sel present exact]
  have "mset (filter (\<lambda>i. ?y ! i = 7) [4, 3, 0, 5, 2]) = mset (flatnonzero (eq_mask ?y 7))"
    by (rule conjunct1)
  then have "mset [0, 5, 2 :: nat] = mset [0, 2, 5]"
    unfolding chosen all .
  with sel chosen all show ?thesis by (intro conjI)
qed

end
